theory Spec2Isabelle
  imports Main "HOL-Library.Sublist"
begin

section \<open>JavaScript strings\<close>

text \<open>
  A JavaScript string is a sequence of UTF-16 code units. The parser works on Korean
  text (all of it in the Basic Multilingual Plane, one code unit per character), and
  its regular expressions carry no \<^verbatim>\<open>u\<close> flag, so they see code units
  too. A string is therefore modelled as the list of its code units, each a natural
  number; the functions below never produce a unit the source would not produce.
\<close>

type_synonym jsstring = "nat list"

definition ascii :: "string \<Rightarrow> jsstring" where
  "ascii s = map of_char s"

text \<open>
  \<^verbatim>\<open>String.prototype.trim\<close> removes WhiteSpace and LineTerminator code points
  from both ends; the regular-expression class \<^verbatim>\<open>\s\<close> is the same set:
  TAB, LF, VT, FF, CR, SP, NBSP, U+1680, U+2000..U+200A, U+2028, U+2029, U+202F,
  U+205F, U+3000 and U+FEFF.
\<close>

definition isWhiteSpace :: "nat \<Rightarrow> bool" where
  "isWhiteSpace c \<longleftrightarrow>
     c = 9 \<or> c = 10 \<or> c = 11 \<or> c = 12 \<or> c = 13 \<or> c = 32 \<or> c = 160 \<or> c = 5760 \<or>
     (8192 \<le> c \<and> c \<le> 8202) \<or> c = 8232 \<or> c = 8233 \<or> c = 8239 \<or> c = 8287 \<or>
     c = 12288 \<or> c = 65279"

definition trim :: "jsstring \<Rightarrow> jsstring" where
  "trim s = rev (dropWhile isWhiteSpace (rev (dropWhile isWhiteSpace s)))"

text \<open>The class \<^verbatim>\<open>\d\<close>: the ten ASCII digits.\<close>

definition isDigit :: "nat \<Rightarrow> bool" where
  "isDigit c \<longleftrightarrow> 48 \<le> c \<and> c \<le> 57"

text \<open>
  \<^verbatim>\<open>/kw/.test(s)\<close> for a literal \<open>kw\<close>, and \<^verbatim>\<open>s.includes(kw)\<close>:
  the literal occurs at some position of \<open>s\<close>, tried from the left.
\<close>

fun search :: "jsstring \<Rightarrow> jsstring \<Rightarrow> bool" where
  "search kw [] = (kw = [])"
| "search kw (c # s) = (prefix kw (c # s) \<or> search kw s)"

section \<open>Trip categories\<close>

datatype TripCategory = Vacation | Education | Others | Trip

text \<open>The keywords of \<^verbatim>\<open>classifyPurpose\<close>, as code units.\<close>

definition kw_yeoncha :: jsstring where "kw_yeoncha = [50672, 52264]"
definition kw_hyuga :: jsstring where "kw_hyuga = [55092, 44032]"
definition kw_gyoyuk :: jsstring where "kw_gyoyuk = [44368, 50977]"
definition kw_hyeopryeoksa :: jsstring where "kw_hyeopryeoksa = [54801, 47141, 49324]"
definition kw_geomjin :: jsstring where "kw_geomjin = [44160, 51652]"

definition classifyPurpose :: "jsstring \<Rightarrow> TripCategory" where
  "classifyPurpose purpose =
     (let p = trim purpose in
      if search kw_yeoncha p \<or> search kw_hyuga p then Vacation
      else if search kw_gyoyuk p then Education
      else if search kw_hyeopryeoksa p \<or> search kw_geomjin p then Others
      else Trip)"

section \<open>Numbers and their decimal form\<close>

text \<open>
  The numbers of this program are small integers or NaN: the results of
  \<^verbatim>\<open>parseInt\<close> on at most four digits and of \<^verbatim>\<open>getFullYear\<close>. A number is
  an \<open>int option\<close>, with \<open>None\<close> for NaN.
\<close>

function digits_of_nat :: "nat \<Rightarrow> jsstring" where
  "digits_of_nat n = (if n < 10 then [48 + n] else digits_of_nat (n div 10) @ [48 + n mod 10])"
  by pat_completeness auto
termination
  by (relation "measure (\<lambda>n. n)") auto

declare digits_of_nat.simps [simp del]

text \<open>\<^verbatim>\<open>String(i)\<close> and the template literal \<^verbatim>\<open>${i}\<close> for an integer.\<close>

definition string_of_int :: "int \<Rightarrow> jsstring" where
  "string_of_int i = (if i < 0 then 45 # digits_of_nat (nat (- i)) else digits_of_nat (nat i))"

definition String_of_number :: "int option \<Rightarrow> jsstring" where
  "String_of_number x = (case x of None \<Rightarrow> ascii ''NaN'' | Some i \<Rightarrow> string_of_int i)"

definition padStart :: "nat \<Rightarrow> nat \<Rightarrow> jsstring \<Rightarrow> jsstring" where
  "padStart n c s = replicate (n - length s) c @ s"

definition nat_of_digits :: "jsstring \<Rightarrow> nat" where
  "nat_of_digits ds = foldl (\<lambda>a c. 10 * a + (c - 48)) 0 ds"

text \<open>
  \<^verbatim>\<open>parseInt(s, 10)\<close>: leading white space is skipped, a sign is read, then the
  longest run of digits; no digit gives NaN. (The value is exact below \<open>2^53\<close>; every
  call in this program reads at most four digits.)
\<close>

definition parseInt :: "jsstring \<Rightarrow> int option" where
  "parseInt s =
     (let t = dropWhile isWhiteSpace s;
          neg = (case t of [] \<Rightarrow> False | c # _ \<Rightarrow> c = 45);
          r = (case t of [] \<Rightarrow> [] | c # r' \<Rightarrow> if c = 45 \<or> c = 43 then r' else t);
          ds = takeWhile isDigit r
      in if ds = [] then None
         else Some (if neg then - int (nat_of_digits ds) else int (nat_of_digits ds)))"

text \<open>
  An array read \<^verbatim>\<open>xs[i]\<close> is \<^verbatim>\<open>undefined\<close> out of range (\<open>None\<close>);
  \<^verbatim>\<open>parseInt(undefined, 10)\<close> reads the string "undefined" and is NaN.
\<close>

definition at_index :: "'a list \<Rightarrow> nat \<Rightarrow> 'a option" where
  "at_index xs i = (if i < length xs then Some (xs ! i) else None)"

definition parseInt_arg :: "jsstring option \<Rightarrow> int option" where
  "parseInt_arg x = (case x of None \<Rightarrow> None | Some s \<Rightarrow> parseInt s)"

text \<open>\<^verbatim>\<open>a > b\<close> on numbers: false when either side is NaN.\<close>

definition num_gt :: "int option \<Rightarrow> int option \<Rightarrow> bool" where
  "num_gt a b = (case a of None \<Rightarrow> False | Some x \<Rightarrow> (case b of None \<Rightarrow> False | Some y \<Rightarrow> x > y))"

text \<open>\<^verbatim>\<open>a - k\<close> on a number: NaN stays NaN.\<close>

definition num_minus :: "int option \<Rightarrow> int \<Rightarrow> int option" where
  "num_minus a k = (case a of None \<Rightarrow> None | Some x \<Rightarrow> Some (x - k))"

text \<open>\<^verbatim>\<open>s.split(sep)\<close> for a separator of one code unit.\<close>

fun split_on :: "nat \<Rightarrow> jsstring \<Rightarrow> jsstring list" where
  "split_on sep [] = [[]]"
| "split_on sep (c # s) =
     (if c = sep then [] # split_on sep s
      else (case split_on sep s of [] \<Rightarrow> [[c]] | p # ps \<Rightarrow> (c # p) # ps))"

section \<open>Date normalisation\<close>

text \<open>
  The regular expression \<^verbatim>\<open>/^\d{1,2}[-.]\d{1,2}$/\<close>: one or two digits, a
  hyphen (45) or a full stop (46), one or two digits, and nothing else. A digit is never
  a separator, so the leading run of digits is the first group.
\<close>

definition short_pattern :: "jsstring \<Rightarrow> bool" where
  "short_pattern s =
     (let a = takeWhile isDigit s; r = dropWhile isDigit s
      in (length a = 1 \<or> length a = 2) \<and>
         (case r of [] \<Rightarrow> False
          | c # b \<Rightarrow> (c = 45 \<or> c = 46) \<and> (length b = 1 \<or> length b = 2) \<and> list_all isDigit b))"

text \<open>\<^verbatim>\<open>clean.includes('-') ? clean.split('-') : clean.split('.')\<close>\<close>

definition date_parts :: "jsstring \<Rightarrow> jsstring list" where
  "date_parts clean = (if search [45] clean then split_on 45 clean else split_on 46 clean)"

definition format_date :: "int option \<Rightarrow> int option \<Rightarrow> int option \<Rightarrow> jsstring" where
  "format_date year m d =
     String_of_number year @ [45] @ padStart 2 48 (String_of_number m) @ [45] @
     padStart 2 48 (String_of_number d)"

text \<open>
  \<^verbatim>\<open>normalizeDate(dateStr, baseDate)\<close>. The date object is read only through
  \<^verbatim>\<open>getFullYear()\<close>, so the model takes that number as its argument
  \<open>currentYear\<close>: \<open>Some y\<close> for a valid date in year \<open>y\<close>, NaN for an invalid one.
\<close>

definition normalizeDate :: "jsstring \<Rightarrow> int option \<Rightarrow> jsstring" where
  "normalizeDate dateStr currentYear =
     (let cleanStr = trim dateStr in
      if short_pattern cleanStr then
        (let parts = date_parts cleanStr;
             m = parseInt_arg (at_index parts 0);
             d = parseInt_arg (at_index parts 1)
         in format_date currentYear m d)
      else cleanStr)"

definition parseMonthDay :: "jsstring \<Rightarrow> int option \<times> int option" where
  "parseMonthDay s =
     (let clean = trim s; parts = date_parts clean
      in (parseInt_arg (at_index parts 0), parseInt_arg (at_index parts 1)))"

definition isShortDate :: "jsstring \<Rightarrow> bool" where
  "isShortDate s = short_pattern (trim s)"

text \<open>
  \<^verbatim>\<open>normalizeDateRange(startStr, endStr, baseDate)\<close>; the result is the pair
  \<open>(startDate, endDate)\<close>.
\<close>

definition normalizeDateRange ::
  "jsstring \<Rightarrow> jsstring \<Rightarrow> int option \<Rightarrow> jsstring \<times> jsstring" where
  "normalizeDateRange startStr endStr currentYear =
     (if isShortDate startStr \<and> isShortDate endStr then
        (let start = parseMonthDay startStr;
             end' = parseMonthDay endStr;
             endYear = currentYear;
             startYear = (if num_gt (fst start) (fst end') then num_minus currentYear 1
                          else currentYear)
         in (format_date startYear (fst start) (snd start),
             format_date endYear (fst end') (snd end')))
      else (normalizeDate startStr currentYear, normalizeDate endStr currentYear))"

text \<open>
  Three notions used to state the properties of the date functions: a group of one or
  two digits (the \<^verbatim>\<open>\d{1,2}\<close> of the short form), the two-digit rendering of a
  number below 100, and the shape \<^verbatim>\<open>YYYY-MM-DD\<close> (four digits, hyphen, two digits,
  hyphen, two digits). The shape says nothing of the ranges of month and day: it is
  what every ISO date has, and a string without it is no ISO date.
\<close>

definition digit_group :: "jsstring \<Rightarrow> bool" where
  "digit_group a \<longleftrightarrow> (length a = 1 \<or> length a = 2) \<and> list_all isDigit a"

definition two_digits :: "nat \<Rightarrow> jsstring" where
  "two_digits n = [48 + n div 10, 48 + n mod 10]"

definition date_shape :: "jsstring \<Rightarrow> bool" where
  "date_shape s \<longleftrightarrow>
     length s = 10 \<and> list_all isDigit (take 4 s) \<and> s ! 4 = 45 \<and>
     list_all isDigit (take 2 (drop 5 s)) \<and> s ! 7 = 45 \<and> list_all isDigit (drop 8 s)"

section \<open>The trip parser\<close>

text \<open>
  A run-time error of the source is a value: the TypeError of a method call on
  \<^verbatim>\<open>undefined\<close>, the SyntaxError of \<^verbatim>\<open>JSON.parse\<close>, the DOMException of a
  rejected IndexedDB request. A fallible computation of the parser returns
  \<open>js_error + 'a\<close>.
\<close>

datatype js_error = TypeError | SyntaxError | DOMException

definition bind_result :: "js_error + 'a \<Rightarrow> ('a \<Rightarrow> js_error + 'b) \<Rightarrow> js_error + 'b" where
  "bind_result r f = (case r of Inl e \<Rightarrow> Inl e | Inr x \<Rightarrow> f x)"

text \<open>\<^verbatim>\<open>x.trim()\<close> where \<open>x\<close> was read from an array.\<close>

definition trim_of :: "jsstring option \<Rightarrow> js_error + jsstring" where
  "trim_of x = (case x of None \<Rightarrow> Inl TypeError | Some s \<Rightarrow> Inr (trim s))"

text \<open>
  \<^verbatim>\<open>TeamMember\<close> and \<^verbatim>\<open>BusinessTrip\<close>. The parser reads two fields of a
  team member, its name and its optional Knox id; the other fields are the record's
  extension. (Field names carry a prefix where two records share a name.)
\<close>

record TeamMember =
  member_name :: jsstring
  member_knoxId :: "jsstring option"

record BusinessTrip =
  trip_id :: jsstring
  knoxId :: "jsstring option"
  name :: jsstring
  startDate :: jsstring
  endDate :: jsstring
  location :: jsstring
  purpose :: jsstring
  category :: TripCategory
  status :: jsstring
  createdAt :: jsstring
  updatedAt :: jsstring

record 'm AmbiguousTrip =
  trip :: BusinessTrip
  candidates :: "'m list"

record 'm ParseResult =
  trips :: "BusinessTrip list"
  unknownNames :: "jsstring list"
  ambiguousTrips :: "'m AmbiguousTrip list"

text \<open>
  What the parser takes from its environment: the clock (\<^verbatim>\<open>new Date()\<close>, read as
  an ISO string and as a full year) and \<^verbatim>\<open>crypto.randomUUID\<close>. The source calls
  \<^verbatim>\<open>crypto.randomUUID()\<close> unguarded. The function exists only in a secure
  context (and in recent browsers): elsewhere \<^verbatim>\<open>crypto.randomUUID\<close> is
  \<^verbatim>\<open>undefined\<close> and the call throws a \<^verbatim>\<open>TypeError\<close>. So the field is
  \<open>None\<close> where the function is absent, and \<open>Some f\<close> where it is present, its
  \<open>k\<close>-th call returning \<open>f k\<close>.
\<close>

record parse_env =
  now_iso :: jsstring
  now_year :: int
  randomUUID :: "(nat \<Rightarrow> jsstring) option"

definition call_randomUUID :: "parse_env \<Rightarrow> nat \<Rightarrow> js_error + jsstring" where
  "call_randomUUID env k = (case randomUUID env of None \<Rightarrow> Inl TypeError | Some f \<Rightarrow> Inr (f k))"

text \<open>\<^verbatim>\<open>text.split('\n').map(l => l.trim()).filter(l => l)\<close>\<close>

definition text_lines :: "jsstring \<Rightarrow> jsstring list" where
  "text_lines text = filter (\<lambda>l. l \<noteq> []) (map trim (split_on 10 text))"

text \<open>
  The member lookup map, built by the loop over \<^verbatim>\<open>existingMembers\<close>: each
  member is pushed onto the array stored under its trimmed name
  (\<^verbatim>\<open>memberMap.get(key)!.push(m)\<close>, a TypeError should the array be missing).
\<close>

definition memberMap_add ::
  "(jsstring \<rightharpoonup> ('a TeamMember_scheme) list) \<Rightarrow> 'a TeamMember_scheme \<Rightarrow>
   js_error + (jsstring \<rightharpoonup> ('a TeamMember_scheme) list)" where
  "memberMap_add mp m =
     (let key = trim (member_name m);
          mp' = (if mp key = None then mp(key \<mapsto> []) else mp)
      in (case mp' key of None \<Rightarrow> Inl TypeError | Some ms \<Rightarrow> Inr (mp'(key \<mapsto> ms @ [m]))))"

fun memberMap_loop ::
  "(jsstring \<rightharpoonup> ('a TeamMember_scheme) list) \<Rightarrow> ('a TeamMember_scheme) list \<Rightarrow>
   js_error + (jsstring \<rightharpoonup> ('a TeamMember_scheme) list)" where
  "memberMap_loop mp [] = Inr mp"
| "memberMap_loop mp (m # ms) = bind_result (memberMap_add mp m) (\<lambda>mp'. memberMap_loop mp' ms)"

definition build_memberMap ::
  "('a TeamMember_scheme) list \<Rightarrow> js_error + (jsstring \<rightharpoonup> ('a TeamMember_scheme) list)" where
  "build_memberMap existingMembers = memberMap_loop Map.empty existingMembers"

text \<open>
  \<^verbatim>\<open>line.match(/(\d{4})-\d{2}-\d{2}/)\<close>: the leftmost position where four digits,
  a hyphen, two digits, a hyphen and two digits follow; the result is group 1.
\<close>

definition year_pattern :: "jsstring \<Rightarrow> bool" where
  "year_pattern s \<longleftrightarrow>
     10 \<le> length s \<and> list_all isDigit (take 4 s) \<and> s ! 4 = 45 \<and>
     list_all isDigit (take 2 (drop 5 s)) \<and> s ! 7 = 45 \<and> list_all isDigit (take 2 (drop 8 s))"

fun yearMatch :: "jsstring \<Rightarrow> jsstring option" where
  "yearMatch [] = None"
| "yearMatch (c # s) = (if year_pattern (c # s) then Some (take 4 (c # s)) else yearMatch s)"

text \<open>
  The loop that looks for an explicit year: the first line with a match sets the year
  of \<^verbatim>\<open>baseDate\<close> and ends the loop. The result is what
  \<^verbatim>\<open>baseDate.getFullYear()\<close> returns afterwards: the year that was set (a
  \<^verbatim>\<open>setFullYear(NaN)\<close> would leave an invalid date), or the clock's year.
\<close>

fun find_base_year :: "parse_env \<Rightarrow> jsstring list \<Rightarrow> int option" where
  "find_base_year env [] = Some (now_year env)"
| "find_base_year env (line # ls) =
     (case yearMatch line of
        None \<Rightarrow> find_base_year env ls
      | Some g \<Rightarrow> parseInt g)"

text \<open>
  \<^verbatim>\<open>line.match(/^(\d{2}-\d{2})(?:\s*~\s*(\d{2}-\d{2}))?$/)\<close>: the groups 1 and 2 of
  a match. Group 1 is the first five code units; what follows is either nothing, or
  white space, a tilde (126), white space and a second \<^verbatim>\<open>MM-DD\<close> up to the end.
  White space, tilde and digit exclude each other, so the match is unique.
\<close>

definition mmdd :: "jsstring \<Rightarrow> bool" where
  "mmdd s \<longleftrightarrow>
     length s = 5 \<and> isDigit (s ! 0) \<and> isDigit (s ! 1) \<and> s ! 2 = 45 \<and>
     isDigit (s ! 3) \<and> isDigit (s ! 4)"

definition dateMatch :: "jsstring \<Rightarrow> (jsstring \<times> jsstring option) option" where
  "dateMatch line =
     (if mmdd (take 5 line) then
        (if drop 5 line = [] then Some (take 5 line, None)
         else (case dropWhile isWhiteSpace (drop 5 line) of
                 [] \<Rightarrow> None
               | c # r \<Rightarrow>
                   if c = 126 \<and> mmdd (dropWhile isWhiteSpace r)
                   then Some (take 5 line, Some (dropWhile isWhiteSpace r))
                   else None))
      else None)"

text \<open>
  \<^verbatim>\<open>!/^\d/.test(name) && name !== '...' && name !== '...'\<close>, the two literals being
  the words for "all day" (U+C885 U+C77C) and "half day" (U+BC18 U+C77C).
\<close>

definition word_allday :: jsstring where "word_allday = [51333, 51068]"
definition word_halfday :: jsstring where "word_halfday = [48152, 51068]"

definition isName :: "jsstring \<Rightarrow> bool" where
  "isName nm \<longleftrightarrow>
     \<not> (case nm of [] \<Rightarrow> False | c # _ \<Rightarrow> isDigit c) \<and> nm \<noteq> word_allday \<and> nm \<noteq> word_halfday"

text \<open>The state of the main loop: the array \<^verbatim>\<open>trips\<close> and the set \<^verbatim>\<open>unknownNames\<close>
  (kept in insertion order, as a JavaScript \<^verbatim>\<open>Set\<close> keeps it).\<close>

record scan_state =
  pushed :: "BusinessTrip list"
  unknown :: "jsstring list"

definition set_add :: "'a \<Rightarrow> 'a list \<Rightarrow> 'a list" where
  "set_add x xs = (if x \<in> set xs then xs else xs @ [x])"

definition location_overseas :: jsstring where "location_overseas = [54644, 50808]"

text \<open>
  The Knox id of a block: \<^verbatim>\<open>candidates[0].knoxId\<close> when the name has exactly one
  candidate, \<^verbatim>\<open>undefined\<close> otherwise.
\<close>

definition match_knoxId :: "('a TeamMember_scheme) list option \<Rightarrow> js_error + jsstring option" where
  "match_knoxId cands =
     (case cands of
        None \<Rightarrow> Inr None
      | Some cs \<Rightarrow>
          if length cs = 1 then
            (case at_index cs 0 of None \<Rightarrow> Inl TypeError | Some c \<Rightarrow> Inr (member_knoxId c))
          else Inr None)"

text \<open>
  One pass through the body of the main loop at index \<open>i\<close>. The result is \<open>None\<close>
  when the body falls through (the loop goes on at \<open>i + 1\<close>), and the new state when a
  trip was pushed (the body adds 2 to \<open>i\<close> and continues, so the loop goes on at
  \<open>i + 3\<close>). The argument of \<^verbatim>\<open>trips.push\<close> is built after the candidates were
  looked up and the unknown name was added; its first field is the call
  \<^verbatim>\<open>crypto.randomUUID()\<close>, which throws where the function is absent.
\<close>

definition scan_line ::
  "parse_env \<Rightarrow> (jsstring \<rightharpoonup> ('a TeamMember_scheme) list) \<Rightarrow> int option \<Rightarrow> jsstring list \<Rightarrow>
   nat \<Rightarrow> scan_state \<Rightarrow> js_error + scan_state option" where
  "scan_line env memberMap baseYear lines i st =
     (case at_index lines i of
        None \<Rightarrow> Inl TypeError
      | Some line \<Rightarrow>
          (case dateMatch line of
             None \<Rightarrow> Inr None
           | Some (g1, g2) \<Rightarrow>
               if i + 2 < length lines then
                 bind_result (trim_of (at_index lines (i + 1))) (\<lambda>nm.
                 bind_result (trim_of (at_index lines (i + 2))) (\<lambda>purp.
                   if isName nm then
                     (let startDateStr = g1;
                          endDateStr = (case g2 of None \<Rightarrow> g1 | Some e \<Rightarrow> if e = [] then g1 else e);
                          dates = normalizeDateRange startDateStr endDateStr baseYear;
                          cands = memberMap nm
                      in bind_result (match_knoxId cands) (\<lambda>kid.
                         bind_result (call_randomUUID env (length (pushed st))) (\<lambda>uuid.
                           Inr (Some
                             \<lparr>pushed = pushed st @
                                [\<lparr>trip_id = uuid,
                                  knoxId = kid,
                                  name = nm,
                                  startDate = fst dates,
                                  endDate = snd dates,
                                  location = location_overseas,
                                  purpose = purp,
                                  category = classifyPurpose purp,
                                  status = ascii ''planned'',
                                  createdAt = now_iso env,
                                  updatedAt = now_iso env\<rparr>],
                              unknown = (if cands = None then set_add nm (unknown st)
                                         else unknown st)\<rparr>))))
                   else Inr None))
               else Inr None))"

function scan_loop ::
  "parse_env \<Rightarrow> (jsstring \<rightharpoonup> ('a TeamMember_scheme) list) \<Rightarrow> int option \<Rightarrow> jsstring list \<Rightarrow>
   nat \<Rightarrow> scan_state \<Rightarrow> js_error + scan_state" where
  "scan_loop env memberMap baseYear lines i st =
     (if i < length lines then
        (case scan_line env memberMap baseYear lines i st of
           Inl e \<Rightarrow> Inl e
         | Inr None \<Rightarrow> scan_loop env memberMap baseYear lines (i + 1) st
         | Inr (Some st') \<Rightarrow> scan_loop env memberMap baseYear lines (i + 3) st')
      else Inr st)"
  by pat_completeness auto
termination
  by (relation "measure (\<lambda>(env, memberMap, baseYear, lines, i, st). length lines - i)") auto

declare scan_loop.simps [simp del]

text \<open>
  The deduplication pass: the key of a trip is
  \<^verbatim>\<open>`${trip.name}|${trip.startDate}|${trip.endDate}`\<close> (the bar is 124).
\<close>

definition trip_key :: "BusinessTrip \<Rightarrow> jsstring" where
  "trip_key t = name t @ [124] @ startDate t @ [124] @ endDate t"

record 'm dedup_state =
  uniqueTrips :: "BusinessTrip list"
  seen :: "jsstring set"
  uniqueAmbiguousTrips :: "'m AmbiguousTrip list"

definition dedup_step ::
  "(jsstring \<rightharpoonup> ('a TeamMember_scheme) list) \<Rightarrow> ('a TeamMember_scheme) dedup_state \<Rightarrow>
   BusinessTrip \<Rightarrow> ('a TeamMember_scheme) dedup_state" where
  "dedup_step memberMap d t =
     (let key = trip_key t in
      if key \<in> seen d then d
      else
        \<lparr>uniqueTrips = uniqueTrips d @ [t],
         seen = insert key (seen d),
         uniqueAmbiguousTrips =
           (if knoxId t = None then
              (case memberMap (name t) of
                 None \<Rightarrow> uniqueAmbiguousTrips d
               | Some cs \<Rightarrow>
                   if length cs > 1
                   then uniqueAmbiguousTrips d @ [\<lparr>trip = t, candidates = cs\<rparr>]
                   else uniqueAmbiguousTrips d)
            else uniqueAmbiguousTrips d)\<rparr>)"

definition dedup ::
  "(jsstring \<rightharpoonup> ('a TeamMember_scheme) list) \<Rightarrow> BusinessTrip list \<Rightarrow>
   ('a TeamMember_scheme) dedup_state" where
  "dedup memberMap ts =
     foldl (dedup_step memberMap) \<lparr>uniqueTrips = [], seen = {}, uniqueAmbiguousTrips = []\<rparr> ts"

definition parseTripText ::
  "parse_env \<Rightarrow> jsstring \<Rightarrow> ('a TeamMember_scheme) list \<Rightarrow>
   js_error + ('a TeamMember_scheme) ParseResult" where
  "parseTripText env text existingMembers =
     (let lines = text_lines text in
      bind_result (build_memberMap existingMembers) (\<lambda>memberMap.
        let baseYear = find_base_year env lines
        in bind_result (scan_loop env memberMap baseYear lines 0 \<lparr>pushed = [], unknown = []\<rparr>)
             (\<lambda>st.
                let d = dedup memberMap (pushed st)
                in Inr \<lparr>trips = uniqueTrips d, unknownNames = unknown st,
                        ambiguousTrips = uniqueAmbiguousTrips d\<rparr>)))"

section \<open>Browser storage\<close>

text \<open>
  The two stores of the browser: \<^verbatim>\<open>localStorage\<close>, from keys to strings, and the
  IndexedDB object store \<^verbatim>\<open>kv\<close>, from keys to JavaScript values of a type \<open>'v\<close>
  that is left open. The environment says whether \<^verbatim>\<open>window\<close> is defined and whether
  IndexedDB requests succeed (when they do not, every \<^verbatim>\<open>idbSet\<close> rejects and leaves
  the store as it is); for the migration it also says what \<^verbatim>\<open>JSON.parse\<close> returns
  (\<open>None\<close> when it throws) and how a string is embedded among the values. Writes to
  \<^verbatim>\<open>localStorage\<close> succeed.
\<close>

record 'v storage =
  localStorage :: "jsstring \<rightharpoonup> jsstring"
  idb :: "jsstring \<rightharpoonup> 'v"

record browser =
  has_window :: bool
  idb_available :: bool

record 'v json_browser = browser +
  JSON_parse :: "jsstring \<Rightarrow> 'v option"
  string_value :: "jsstring \<Rightarrow> 'v"

definition STORAGE_KEY :: jsstring where
  "STORAGE_KEY = ascii ''local-tasks-data''"

definition IDB_MIGRATION_KEY :: jsstring where
  "IDB_MIGRATION_KEY = ascii ''local-tasks-idb-migrated-v1''"

definition IDB_SYNC_KEYS :: "jsstring list" where
  "IDB_SYNC_KEYS =
     [ascii ''local-tasks-data'',
      ascii ''local-tasks-quick-links'',
      ascii ''local-tasks-notes'',
      ascii ''local-tasks-labels'',
      ascii ''local-tasks-theme'',
      ascii ''local-tasks-layout'',
      ascii ''local-tasks-layout-state'',
      ascii ''local-tasks-layout-presets'',
      ascii ''local-tasks-team-members'',
      ascii ''local-tasks-business-trips'',
      ascii ''local-tasks-trip-records'',
      ascii ''tripNameResolutions'',
      ascii ''tripDestinationMappings'',
      ascii ''calendar-settings'',
      ascii ''calendar-collapsed-weeks'',
      ascii ''search-history'',
      ascii ''sidebar_calendar_expanded'',
      ascii ''sidebar_quicklinks_expanded'',
      ascii ''sidebar_pinnedmemos_expanded'',
      ascii ''team-member-custom-columns'',
      ascii ''team-member-visible-columns'',
      ascii ''tripViewMode'',
      ascii ''tripCategoryColors'',
      ascii ''ganttViewPrefs'',
      ascii ''tripRecordColumns'',
      ascii ''tripRecordHeaders'',
      ascii ''local-tasks-current-view'',
      ascii ''local-tasks-current-month'',
      ascii ''local-tasks-selected-date'',
      ascii ''local-tasks-selected-category-ids'',
      IDB_MIGRATION_KEY]"

definition heavyKeys :: "jsstring list" where
  "heavyKeys =
     [ascii ''local-tasks-data'', ascii ''local-tasks-quick-links'', ascii ''local-tasks-notes'',
      ascii ''local-tasks-labels'', ascii ''local-tasks-team-members'',
      ascii ''local-tasks-business-trips'', ascii ''local-tasks-trip-records'',
      ascii ''tripNameResolutions'']"

definition shouldSyncKey :: "jsstring \<Rightarrow> bool" where
  "shouldSyncKey key \<longleftrightarrow> key \<in> set IDB_SYNC_KEYS"

text \<open>
  An asynchronous storage operation ends with the storage as it left it and, when its
  promise rejects, the error.
\<close>

type_synonym 'v outcome = "js_error option \<times> 'v storage"

definition idbSet :: "'x browser_scheme \<Rightarrow> jsstring \<Rightarrow> 'v \<Rightarrow> 'v storage \<Rightarrow> 'v outcome" where
  "idbSet env key v s =
     (if \<not> has_window env then (None, s)
      else if idb_available env then (None, s\<lparr>idb := (idb s)(key \<mapsto> v)\<rparr>)
      else (Some DOMException, s))"

definition idbGet :: "'x browser_scheme \<Rightarrow> jsstring \<Rightarrow> 'v storage \<Rightarrow> js_error + 'v option" where
  "idbGet env key s =
     (if \<not> has_window env then Inr None
      else if idb_available env then Inr (idb s key)
      else Inl DOMException)"

definition getStorageItem :: "'x browser_scheme \<Rightarrow> 'v storage \<Rightarrow> jsstring \<Rightarrow> jsstring option" where
  "getStorageItem env s key = (if \<not> has_window env then None else localStorage s key)"

text \<open>
  \<^verbatim>\<open>setStorageItem\<close> writes to \<^verbatim>\<open>localStorage\<close> and, for a tracked key, starts an
  \<^verbatim>\<open>idbSet\<close> whose rejection it swallows. The source does not await that write; the
  model performs it at once, which is the order IndexedDB gives to the requests of
  the migration (its only use here is followed by an awaited write of the same value
  under the same key).
\<close>

definition setStorageItem :: "('v, 'x) json_browser_scheme \<Rightarrow> jsstring \<Rightarrow> jsstring \<Rightarrow> 'v storage \<Rightarrow> 'v storage" where
  "setStorageItem env key v s =
     (if \<not> has_window env then s
      else
        (let s1 = s\<lparr>localStorage := (localStorage s)(key \<mapsto> v)\<rparr>
         in if shouldSyncKey key then snd (idbSet env key (string_value env v) s1) else s1))"

text \<open>The body of the migration loop for one key: parse and store, or store the string.\<close>

definition migrate_key :: "('v, 'x) json_browser_scheme \<Rightarrow> jsstring \<Rightarrow> 'v storage \<Rightarrow> 'v outcome" where
  "migrate_key env key s =
     (case getStorageItem env s key of
        None \<Rightarrow> (None, s)
      | Some valueStr \<Rightarrow>
          (case (case JSON_parse env valueStr of
                   None \<Rightarrow> (Some SyntaxError, s)
                 | Some v \<Rightarrow> idbSet env key v s) of
             (None, s1) \<Rightarrow> (None, s1)
           | (Some e, s1) \<Rightarrow> idbSet env key (string_value env valueStr) s1))"

fun migrate_keys :: "('v, 'x) json_browser_scheme \<Rightarrow> jsstring list \<Rightarrow> 'v storage \<Rightarrow> 'v outcome" where
  "migrate_keys env [] s = (None, s)"
| "migrate_keys env (key # keys) s =
     (case migrate_key env key s of
        (None, s1) \<Rightarrow> migrate_keys env keys s1
      | (Some e, s1) \<Rightarrow> (Some e, s1))"

definition removeItems :: "jsstring list \<Rightarrow> 'v storage \<Rightarrow> 'v storage" where
  "removeItems keys s = s\<lparr>localStorage := foldl (\<lambda>m k. m(k := None)) (localStorage s) keys\<rparr>"

text \<open>
  \<^verbatim>\<open>initializeIndexedDBStorage\<close>. Its promise always resolves (the outer
  \<^verbatim>\<open>catch\<close> logs the error), so the result is the storage it leaves.
\<close>

definition initializeIndexedDBStorage :: "('v, 'x) json_browser_scheme \<Rightarrow> 'v storage \<Rightarrow> 'v storage" where
  "initializeIndexedDBStorage env s =
     (if \<not> has_window env then s
      else if getStorageItem env s IDB_MIGRATION_KEY \<noteq> Some (ascii ''2'') then
        (case migrate_keys env IDB_SYNC_KEYS s of
           (Some e, s1) \<Rightarrow> s1
         | (None, s1) \<Rightarrow>
             (let s2 = setStorageItem env IDB_MIGRATION_KEY (ascii ''2'') s1
              in case idbSet env IDB_MIGRATION_KEY (string_value env (ascii ''2'')) s2 of
                   (Some e, s3) \<Rightarrow> s3
                 | (None, s3) \<Rightarrow> removeItems heavyKeys s3))
      else s)"

text \<open>What the migration stores for a string: its parsed value, or the string itself.\<close>

definition stored_value :: "('v, 'x) json_browser_scheme \<Rightarrow> jsstring \<Rightarrow> 'v" where
  "stored_value env valueStr =
     (case JSON_parse env valueStr of None \<Rightarrow> string_value env valueStr | Some v \<Rightarrow> v)"

section \<open>Categories and tasks\<close>

text \<open>
  \<^verbatim>\<open>Category\<close>, \<^verbatim>\<open>Task\<close> and \<^verbatim>\<open>AppData\<close>, with the fields the storage module
  writes (further optional fields are the records' extensions). The app data lives in
  the key-value store under \<open>STORAGE_KEY\<close>; for this part the values of the store
  are app data.
\<close>

record Category =
  category_id :: jsstring
  category_name :: jsstring
  color :: jsstring
  category_order :: int
  category_createdAt :: jsstring

record Task =
  task_id :: jsstring
  categoryId :: jsstring
  title :: jsstring
  assignee :: jsstring
  resourceUrl :: jsstring
  task_notes :: jsstring
  dueDate :: "jsstring option"
  dueTime :: "jsstring option"
  tags :: "jsstring list"
  completed :: bool
  completedAt :: "jsstring option"
  isPinned :: bool
  task_order :: int
  task_createdAt :: jsstring

record AppData =
  categories :: "Category list"
  tasks :: "Task list"

text \<open>
  The environment of the storage module: the browser, the id that \<^verbatim>\<open>generateId()\<close>
  returns, the clock as an ISO string, and the first entry of \<^verbatim>\<open>CATEGORY_COLORS\<close>
  (a table declared in a file not at hand).
\<close>

record app_env = browser +
  generateId :: jsstring
  toISOString :: jsstring
  CATEGORY_COLORS_0 :: jsstring

text \<open>
  The result of an asynchronous wrapper: what its promise resolves to, or the error it
  rejects with, and the storage it leaves.
\<close>

type_synonym 'r result = "(js_error + 'r) \<times> AppData storage"

definition default_category_name :: jsstring where
  "default_category_name = [45236, 54624, 51068]"

definition saveAppData :: "'x browser_scheme \<Rightarrow> AppData \<Rightarrow> AppData storage \<Rightarrow> AppData outcome" where
  "saveAppData env data s = (if \<not> has_window env then (None, s) else idbSet env STORAGE_KEY data s)"

text \<open>The constant \<^verbatim>\<open>defaultData\<close> of \<^verbatim>\<open>getAppData\<close>: one category, no task.\<close>

definition defaultData :: "app_env \<Rightarrow> AppData" where
  "defaultData env =
     \<lparr>categories =
        [\<lparr>category_id = generateId env, category_name = default_category_name,
          color = CATEGORY_COLORS_0 env, category_order = 0,
          category_createdAt = toISOString env\<rparr>],
      tasks = []\<rparr>"

definition getAppData :: "app_env \<Rightarrow> AppData storage \<Rightarrow> AppData result" where
  "getAppData env s =
     (if \<not> has_window env then (Inr \<lparr>categories = [], tasks = []\<rparr>, s)
      else
        (case idbGet env STORAGE_KEY s of
           Inl e \<Rightarrow> (Inl e, s)
         | Inr (Some data) \<Rightarrow> (Inr data, s)
         | Inr None \<Rightarrow>
             (case saveAppData env (defaultData env) s of
                (Some e, s1) \<Rightarrow> (Inl e, s1)
              | (None, s1) \<Rightarrow> (Inr (defaultData env), s1))))"

text \<open>\<^verbatim>\<open>xs.findIndex(p)\<close>, with \<open>None\<close> for -1, and \<^verbatim>\<open>xs.splice(index, 1)\<close>.\<close>

fun findIndex :: "('a \<Rightarrow> bool) \<Rightarrow> 'a list \<Rightarrow> nat option" where
  "findIndex p [] = None"
| "findIndex p (x # xs) =
     (if p x then Some 0 else (case findIndex p xs of None \<Rightarrow> None | Some i \<Rightarrow> Some (Suc i)))"

definition splice1 :: "nat \<Rightarrow> 'a list \<Rightarrow> 'a list" where
  "splice1 index xs = take index xs @ drop (Suc index) xs"

text \<open>
  A wrapper that has changed the data ends with \<^verbatim>\<open>await saveAppData(data)\<close> and
  its return value; a rejected write rejects the wrapper.
\<close>

definition save_and_return ::
  "'x browser_scheme \<Rightarrow> AppData \<Rightarrow> 'r \<Rightarrow> AppData storage \<Rightarrow> 'r result" where
  "save_and_return env data r s =
     (case saveAppData env data s of (Some e, s1) \<Rightarrow> (Inl e, s1) | (None, s1) \<Rightarrow> (Inr r, s1))"

text \<open>
  An argument of type \<^verbatim>\<open>Partial<T>\<close> is used only in the spread
  \<^verbatim>\<open>{ ...old, ...updates }\<close>; it is modelled by that function from the old object to
  the new one.
\<close>

definition updateCategory ::
  "app_env \<Rightarrow> jsstring \<Rightarrow> (Category \<Rightarrow> Category) \<Rightarrow> AppData storage \<Rightarrow>
   Category option result" where
  "updateCategory env ident updates s =
     (case getAppData env s of
        (Inl e, s1) \<Rightarrow> (Inl e, s1)
      | (Inr data, s1) \<Rightarrow>
          (case findIndex (\<lambda>c. category_id c = ident) (categories data) of
             None \<Rightarrow> (Inr None, s1)
           | Some index \<Rightarrow>
               (let data' = data\<lparr>categories :=
                              (categories data)[index := updates (categories data ! index)]\<rparr>
                in save_and_return env data' (Some (categories data' ! index)) s1)))"

definition deleteCategory ::
  "app_env \<Rightarrow> jsstring \<Rightarrow> AppData storage \<Rightarrow> bool result" where
  "deleteCategory env ident s =
     (case getAppData env s of
        (Inl e, s1) \<Rightarrow> (Inl e, s1)
      | (Inr data, s1) \<Rightarrow>
          (case findIndex (\<lambda>c. category_id c = ident) (categories data) of
             None \<Rightarrow> (Inr False, s1)
           | Some index \<Rightarrow>
               (let data' = data\<lparr>tasks := filter (\<lambda>t. categoryId t \<noteq> ident) (tasks data)\<rparr>;
                    data'' = data'\<lparr>categories := splice1 index (categories data')\<rparr>
                in save_and_return env data'' True s1)))"

definition updateTask ::
  "app_env \<Rightarrow> jsstring \<Rightarrow> (Task \<Rightarrow> Task) \<Rightarrow> AppData storage \<Rightarrow> Task option result" where
  "updateTask env ident updates s =
     (case getAppData env s of
        (Inl e, s1) \<Rightarrow> (Inl e, s1)
      | (Inr data, s1) \<Rightarrow>
          (case findIndex (\<lambda>t. task_id t = ident) (tasks data) of
             None \<Rightarrow> (Inr None, s1)
           | Some index \<Rightarrow>
               (let data' = data\<lparr>tasks := (tasks data)[index := updates (tasks data ! index)]\<rparr>
                in save_and_return env data' (Some (tasks data' ! index)) s1)))"

definition deleteTask :: "app_env \<Rightarrow> jsstring \<Rightarrow> AppData storage \<Rightarrow> bool result" where
  "deleteTask env ident s =
     (case getAppData env s of
        (Inl e, s1) \<Rightarrow> (Inl e, s1)
      | (Inr data, s1) \<Rightarrow>
          (case findIndex (\<lambda>t. task_id t = ident) (tasks data) of
             None \<Rightarrow> (Inr False, s1)
           | Some index \<Rightarrow>
               (let data' = data\<lparr>tasks := splice1 index (tasks data)\<rparr>
                in save_and_return env data' True s1)))"

definition toggleTaskComplete ::
  "app_env \<Rightarrow> jsstring \<Rightarrow> AppData storage \<Rightarrow> Task option result" where
  "toggleTaskComplete env ident s =
     (case getAppData env s of
        (Inl e, s1) \<Rightarrow> (Inl e, s1)
      | (Inr data, s1) \<Rightarrow>
          (case findIndex (\<lambda>t. task_id t = ident) (tasks data) of
             None \<Rightarrow> (Inr None, s1)
           | Some index \<Rightarrow>
               (let newCompleted = \<not> completed (tasks data ! index);
                    t' = (tasks data ! index)
                           \<lparr>completed := newCompleted,
                            completedAt := (if newCompleted then Some (toISOString env) else None)\<rparr>;
                    data' = data\<lparr>tasks := (tasks data)[index := t']\<rparr>
                in save_and_return env data' (Some (tasks data' ! index)) s1)))"

text \<open>What a wrapper returns when the id is missing: its value, or the rejection of the
  read when IndexedDB does not work.\<close>

definition missing :: "'x browser_scheme \<Rightarrow> 'r \<Rightarrow> js_error + 'r" where
  "missing env r = (if has_window env \<and> \<not> idb_available env then Inl DOMException else Inr r)"

section \<open>The resolver dialog\<close>

text \<open>
  The state of \<^verbatim>\<open>TripHomonymResolverDialog\<close> is the object \<^verbatim>\<open>resolutions\<close>. It is
  a plain object, made by the literals \<^verbatim>\<open>{}\<close> and
  \<^verbatim>\<open>{ ...prev, [tripId]: knoxId }\<close>, so its prototype is \<^verbatim>\<open>Object.prototype\<close>. It
  is modelled by its own properties: \<open>res key = Some v\<close> when the object has the own
  property \<open>key\<close> with value \<open>v\<close>, where \<open>v = None\<close> stands for \<^verbatim>\<open>undefined\<close> (the
  Knox id of a member is optional). The spread copies the own properties, and the
  computed key defines an own property, whatever its name.

  A read \<^verbatim>\<open>resolutions[key]\<close> takes the own property when there is one and goes on
  to the prototype otherwise. \<^verbatim>\<open>Object.prototype\<close> has the properties listed in
  \<open>Object_prototype_names\<close>; each of them reads as a value other than
  \<^verbatim>\<open>undefined\<close> (a function, or for \<^verbatim>\<open>__proto__\<close> the prototype itself).

  Opening the dialog resets the state; a click on candidate \<open>j\<close> of entry \<open>i\<close> calls
  \<^verbatim>\<open>handleSelect(trip.id, c.knoxId)\<close>; a click on the confirm button calls
  \<^verbatim>\<open>handleConfirm\<close> unless the button is disabled.
\<close>

type_synonym resolutions = "jsstring \<rightharpoonup> jsstring option"

datatype js_value = JS_undefined | JS_string jsstring | JS_inherited

definition Object_prototype_names :: "jsstring list" where
  "Object_prototype_names =
     [ascii ''constructor'', ascii ''hasOwnProperty'', ascii ''isPrototypeOf'',
      ascii ''propertyIsEnumerable'', ascii ''toLocaleString'', ascii ''toString'',
      ascii ''valueOf'', ascii ''__proto__'', ascii ''__defineGetter__'',
      ascii ''__defineSetter__'', ascii ''__lookupGetter__'', ascii ''__lookupSetter__'']"

text \<open>\<^verbatim>\<open>resolutions[key]\<close>\<close>

definition get_property :: "resolutions \<Rightarrow> jsstring \<Rightarrow> js_value" where
  "get_property res key =
     (case res key of
        Some None \<Rightarrow> JS_undefined
      | Some (Some s) \<Rightarrow> JS_string s
      | None \<Rightarrow> if key \<in> set Object_prototype_names then JS_inherited else JS_undefined)"

definition handleSelect :: "jsstring \<Rightarrow> jsstring option \<Rightarrow> resolutions \<Rightarrow> resolutions" where
  "handleSelect tripId knox prev = prev(tripId \<mapsto> knox)"

definition isAllResolved :: "('a TeamMember_scheme) AmbiguousTrip list \<Rightarrow> resolutions \<Rightarrow> bool" where
  "isAllResolved ambiguous res =
     list_all (\<lambda>t. get_property res (trip_id (trip t)) \<noteq> JS_undefined) ambiguous"

text \<open>\<open>handleConfirm\<close> gives the argument that \<^verbatim>\<open>onResolve\<close> is called with.\<close>

definition handleConfirm :: "resolutions \<Rightarrow> resolutions" where
  "handleConfirm res = res"

definition confirm_click ::
  "('a TeamMember_scheme) AmbiguousTrip list \<Rightarrow> resolutions \<Rightarrow> resolutions option" where
  "confirm_click ambiguous res =
     (if \<not> isAllResolved ambiguous res then None else Some (handleConfirm res))"

datatype dialog_event = Opened | Candidate_click nat nat

definition dialog_step ::
  "('a TeamMember_scheme) AmbiguousTrip list \<Rightarrow> resolutions \<Rightarrow> dialog_event \<Rightarrow> resolutions" where
  "dialog_step ambiguous res ev =
     (case ev of
        Opened \<Rightarrow> Map.empty
      | Candidate_click i j \<Rightarrow>
          (case at_index ambiguous i of
             None \<Rightarrow> res
           | Some t \<Rightarrow>
               (case at_index (candidates t) j of
                  None \<Rightarrow> res
                | Some c \<Rightarrow> handleSelect (trip_id (trip t)) (member_knoxId c) res)))"

definition dialog_run ::
  "('a TeamMember_scheme) AmbiguousTrip list \<Rightarrow> dialog_event list \<Rightarrow> resolutions" where
  "dialog_run ambiguous evs = foldl (dialog_step ambiguous) Map.empty evs"

section \<open>The course of the main loop\<close>

text \<open>
  The notions below describe the main loop of the parser without its state; the facts
  proved later connect them to \<open>scan_loop\<close>. A line is a date line when \<open>dateMatch\<close>
  succeeds on it; \<open>start_str\<close> and \<open>end_str\<close> are the two date strings the loop
  takes from it. A block starts at index \<open>i\<close> when line \<open>i\<close> is a date line, two more
  lines exist and the next line passes \<open>isName\<close>. \<open>block_starts lines i\<close> lists, in
  order, the indices at which the loop, started at \<open>i\<close>, takes a block: after a block
  at \<open>j\<close> it goes on at \<open>j + 3\<close>, otherwise at \<open>j + 1\<close>. \<open>block_trip\<close> is the trip
  pushed for a block, and \<open>block_unknown\<close> the update of the unknown names.
  \<open>uuid_of env k\<close> is what the \<open>k\<close>-th call of \<^verbatim>\<open>crypto.randomUUID()\<close> returns where
  the function is present (where it is absent no trip is ever pushed, and the value
  is of no account).
\<close>

definition uuid_of :: "parse_env \<Rightarrow> nat \<Rightarrow> jsstring" where
  "uuid_of env k = (case randomUUID env of Some f \<Rightarrow> f k | None \<Rightarrow> [])"

definition start_str :: "jsstring \<Rightarrow> jsstring" where
  "start_str line = take 5 line"

definition end_str :: "jsstring \<Rightarrow> jsstring" where
  "end_str line = (case dateMatch line of Some (g1, Some e) \<Rightarrow> e | _ \<Rightarrow> take 5 line)"

definition is_block :: "jsstring list \<Rightarrow> nat \<Rightarrow> bool" where
  "is_block lines i \<longleftrightarrow>
     i + 2 < length lines \<and> dateMatch (lines ! i) \<noteq> None \<and> isName (trim (lines ! (i + 1)))"

function block_starts :: "jsstring list \<Rightarrow> nat \<Rightarrow> nat list" where
  "block_starts lines i =
     (if i < length lines then
        (if is_block lines i then i # block_starts lines (i + 3)
         else block_starts lines (i + 1))
      else [])"
  by pat_completeness auto
termination
  by (relation "measure (\<lambda>(lines, i). length lines - i)") auto

declare block_starts.simps [simp del]

definition block_knoxId :: "('a TeamMember_scheme) list option \<Rightarrow> jsstring option" where
  "block_knoxId cands = (case cands of Some [c] \<Rightarrow> member_knoxId c | _ \<Rightarrow> None)"

definition block_trip ::
  "parse_env \<Rightarrow> (jsstring \<rightharpoonup> ('a TeamMember_scheme) list) \<Rightarrow> int option \<Rightarrow> jsstring list \<Rightarrow>
   nat \<times> nat \<Rightarrow> BusinessTrip" where
  "block_trip env memberMap baseYear lines ki =
     (let i = snd ki; nm = trim (lines ! (i + 1)); purp = trim (lines ! (i + 2));
          dates = normalizeDateRange (start_str (lines ! i)) (end_str (lines ! i)) baseYear
      in \<lparr>trip_id = uuid_of env (fst ki), knoxId = block_knoxId (memberMap nm), name = nm,
          startDate = fst dates, endDate = snd dates, location = location_overseas,
          purpose = purp, category = classifyPurpose purp, status = ascii ''planned'',
          createdAt = now_iso env, updatedAt = now_iso env\<rparr>)"

definition block_unknown ::
  "(jsstring \<rightharpoonup> ('a TeamMember_scheme) list) \<Rightarrow> jsstring list \<Rightarrow> jsstring list \<Rightarrow> nat \<Rightarrow> jsstring list" where
  "block_unknown memberMap lines u i =
     (if memberMap (trim (lines ! (i + 1))) = None then set_add (trim (lines ! (i + 1))) u else u)"

text \<open>
  The member lookup map as a function: under a name, the roster members with that
  trimmed name, in the order of the roster; nothing when there is none.
\<close>

definition memberMap_of ::
  "('a TeamMember_scheme) list \<Rightarrow> (jsstring \<rightharpoonup> ('a TeamMember_scheme) list)" where
  "memberMap_of existingMembers nm =
     (if filter (\<lambda>m. trim (member_name m) = nm) existingMembers = [] then None
      else Some (filter (\<lambda>m. trim (member_name m) = nm) existingMembers))"

section \<open>Deduplication, stated on the list\<close>

text \<open>
  \<open>first_occurrences key xs\<close> keeps, in order, the elements of \<open>xs\<close> that no earlier
  element shares its key with. The triple of a trip is its name with its two dates; a
  trip is ambiguous when it has no Knox id and its name has several candidates.
\<close>

definition first_occurrences :: "('a \<Rightarrow> 'k) \<Rightarrow> 'a list \<Rightarrow> 'a list" where
  "first_occurrences key xs =
     map (\<lambda>i. xs ! i) (filter (\<lambda>i. \<forall>j<i. key (xs ! j) \<noteq> key (xs ! i)) [0..<length xs])"

definition trip_triple :: "BusinessTrip \<Rightarrow> jsstring \<times> jsstring \<times> jsstring" where
  "trip_triple t = (name t, startDate t, endDate t)"

definition is_ambiguous :: "(jsstring \<rightharpoonup> ('a TeamMember_scheme) list) \<Rightarrow> BusinessTrip \<Rightarrow> bool" where
  "is_ambiguous memberMap t \<longleftrightarrow>
     knoxId t = None \<and> (case memberMap (name t) of None \<Rightarrow> False | Some cs \<Rightarrow> 1 < length cs)"

definition ambiguous_entry ::
  "(jsstring \<rightharpoonup> ('a TeamMember_scheme) list) \<Rightarrow> BusinessTrip \<Rightarrow> ('a TeamMember_scheme) AmbiguousTrip" where
  "ambiguous_entry memberMap t =
     \<lparr>trip = t, candidates = (case memberMap (name t) of None \<Rightarrow> [] | Some cs \<Rightarrow> cs)\<rparr>"

text \<open>The trips pushed by the main loop on a text, in the order of the text.\<close>

definition pushed_trips ::
  "parse_env \<Rightarrow> jsstring \<Rightarrow> ('a TeamMember_scheme) list \<Rightarrow> BusinessTrip list" where
  "pushed_trips env text existingMembers =
     (let lines = text_lines text
      in map (block_trip env (memberMap_of existingMembers) (find_base_year env lines) lines)
           (enumerate 0 (block_starts lines 0)))"

text \<open>
  What the block that starts at line \<open>i\<close> says: its triple of name and normalised
  dates, and its purpose.
\<close>

definition block_triple :: "parse_env \<Rightarrow> jsstring list \<Rightarrow> nat \<Rightarrow> jsstring \<times> jsstring \<times> jsstring" where
  "block_triple env lines i =
     (let dates = normalizeDateRange (start_str (lines ! i)) (end_str (lines ! i))
                    (find_base_year env lines)
      in (lines ! (i + 1), fst dates, snd dates))"

definition block_said :: "parse_env \<Rightarrow> jsstring list \<Rightarrow> nat \<Rightarrow> (jsstring \<times> jsstring \<times> jsstring) \<times> jsstring" where
  "block_said env lines i = (block_triple env lines i, lines ! (i + 2))"

definition trip_said :: "BusinessTrip \<Rightarrow> (jsstring \<times> jsstring \<times> jsstring) \<times> jsstring" where
  "trip_said t = (trip_triple t, purpose t)"

section \<open>A sample run\<close>

text \<open>
  A sample input, used to evaluate the parser: a clock in 2030, UUIDs "u0", "u1", ...;
  a roster with one Kim and two members named Lee (one of them stored with a leading
  space); and a text of fifteen lines: a header with an explicit year, a block for Lee
  across the year boundary, two blocks for Kim on the same day, a date line followed by
  the word for "all day", and a block for Park, who is not on the roster.
\<close>

definition sample_env :: parse_env where
  "sample_env = \<lparr>now_iso = ascii ''2030-01-01T00:00:00.000Z'', now_year = 2030,
                  randomUUID = Some (\<lambda>k. [117, 48 + k])\<rparr>"

text \<open>The same clock on a page where \<^verbatim>\<open>crypto.randomUUID\<close> is absent.\<close>

definition insecure_env :: parse_env where
  "insecure_env = \<lparr>now_iso = ascii ''2030-01-01T00:00:00.000Z'', now_year = 2030,
                    randomUUID = None\<rparr>"

definition sample_roster :: "TeamMember list" where
  "sample_roster =
     [\<lparr>member_name = ascii ''Kim'', member_knoxId = Some (ascii ''k1'')\<rparr>,
      \<lparr>member_name = ascii ''Lee'', member_knoxId = Some (ascii ''l1'')\<rparr>,
      \<lparr>member_name = ascii '' Lee'', member_knoxId = Some (ascii ''l2'')\<rparr>]"

definition sample_text :: jsstring where
  "sample_text =
     ascii ''2026-02-01 ~ 2026-02-07'' @ [10] @
     ascii ''12-29 ~ 01-03'' @ [10] @ ascii ''Lee'' @ [10] @ kw_gyoyuk @ [10] @
     ascii ''01-05'' @ [10] @ ascii '' Kim'' @ [10] @ ascii ''trip'' @ [10] @ [10] @
     ascii ''01-05'' @ [10] @ ascii ''Kim'' @ [10] @ ascii ''again'' @ [10] @
     ascii ''01-06'' @ [10] @ word_allday @ [10] @
     ascii ''01-07'' @ [10] @ ascii ''Park'' @ [10] @ ascii ''visit''"

text \<open>A second text: a date line whose purpose line is itself a date line.\<close>

definition nested_text :: jsstring where
  "nested_text =
     ascii ''01-01'' @ [10] @ ascii ''Kim'' @ [10] @ ascii ''01-02'' @ [10] @
     ascii ''Lee'' @ [10] @ ascii ''visit''"

text \<open>A text dated in the year 999, with a block across the year boundary.\<close>

definition year999_text :: jsstring where
  "year999_text =
     ascii ''0999-01-01'' @ [10] @
     ascii ''12-29 ~ 02-12'' @ [10] @ ascii ''Kim'' @ [10] @ ascii ''trip''"

text \<open>A third text: the same block twice, with two purposes.\<close>

definition twice_text :: jsstring where
  "twice_text =
     ascii ''01-05'' @ [10] @ ascii ''Kim'' @ [10] @ ascii ''first'' @ [10] @
     ascii ''01-05'' @ [10] @ ascii ''Kim'' @ [10] @ ascii ''second''"

text \<open>
  A sample browser, with a stand-in for \<^verbatim>\<open>JSON.parse\<close> that accepts the texts that
  start with an opening bracket, and a storage that holds the task data and the theme.
\<close>

datatype sample_value = Str jsstring | Parsed jsstring

definition sample_browser :: "sample_value json_browser" where
  "sample_browser =
     \<lparr>has_window = True, idb_available = True,
      JSON_parse = (\<lambda>s. case s of [] \<Rightarrow> None | c # _ \<Rightarrow> if c = 91 then Some (Parsed s) else None),
      string_value = Str\<rparr>"

definition sample_storage :: "sample_value storage" where
  "sample_storage =
     \<lparr>localStorage = [ascii ''local-tasks-data'' \<mapsto> ascii ''[1]'',
                      ascii ''local-tasks-theme'' \<mapsto> ascii ''light''],
      idb = Map.empty\<rparr>"

text \<open>
  A sample environment of the storage module and two stores: an empty one, and one that
  holds two categories with one task each.
\<close>

definition sample_app_env :: app_env where
  "sample_app_env =
     \<lparr>has_window = True, idb_available = True,
      generateId = ascii ''1700000000000-abc'', toISOString = ascii ''2030-01-01T00:00:00.000Z'',
      CATEGORY_COLORS_0 = ascii ''#3b82f6''\<rparr>"

definition empty_storage :: "AppData storage" where
  "empty_storage = \<lparr>localStorage = Map.empty, idb = Map.empty\<rparr>"

definition sample_category :: "jsstring \<Rightarrow> Category" where
  "sample_category ident =
     \<lparr>category_id = ident, category_name = ident, color = ascii ''#3b82f6'', category_order = 0,
      category_createdAt = ascii ''2030-01-01T00:00:00.000Z''\<rparr>"

definition sample_task :: "jsstring \<Rightarrow> jsstring \<Rightarrow> Task" where
  "sample_task ident cat =
     \<lparr>task_id = ident, categoryId = cat, title = ident, assignee = [], resourceUrl = [],
      task_notes = [], dueDate = None, dueTime = None, tags = [], completed = False,
      completedAt = None, isPinned = False, task_order = 0,
      task_createdAt = ascii ''2030-01-01T00:00:00.000Z''\<rparr>"

definition sample_data :: AppData where
  "sample_data =
     \<lparr>categories = [sample_category (ascii ''c1''), sample_category (ascii ''c2'')],
      tasks = [sample_task (ascii ''t1'') (ascii ''c1''), sample_task (ascii ''t2'') (ascii ''c2'')]\<rparr>"

definition sample_app_storage :: "AppData storage" where
  "sample_app_storage = \<lparr>localStorage = Map.empty, idb = [STORAGE_KEY \<mapsto> sample_data]\<rparr>"

text \<open>
  The one ambiguous entry of the sample run, as the dialog receives it; and the same
  entry for a trip whose id is the word \<^verbatim>\<open>constructor\<close>.
\<close>

definition constructor_ambiguous :: "TeamMember AmbiguousTrip list" where
  "constructor_ambiguous =
     [\<lparr>trip =
         \<lparr>trip_id = ascii ''constructor'', knoxId = None, name = ascii ''Lee'',
          startDate = ascii ''2025-12-29'', endDate = ascii ''2026-01-03'',
          location = location_overseas, purpose = kw_gyoyuk, category = Education,
          status = ascii ''planned'', createdAt = ascii ''2030-01-01T00:00:00.000Z'',
          updatedAt = ascii ''2030-01-01T00:00:00.000Z''\<rparr>,
       candidates =
         [\<lparr>member_name = ascii ''Lee'', member_knoxId = Some (ascii ''l1'')\<rparr>,
          \<lparr>member_name = ascii '' Lee'', member_knoxId = Some (ascii ''l2'')\<rparr>]\<rparr>]"

definition sample_ambiguous :: "TeamMember AmbiguousTrip list" where
  "sample_ambiguous =
     [\<lparr>trip =
         \<lparr>trip_id = ascii ''u0'', knoxId = None, name = ascii ''Lee'',
          startDate = ascii ''2025-12-29'', endDate = ascii ''2026-01-03'',
          location = location_overseas, purpose = kw_gyoyuk, category = Education,
          status = ascii ''planned'', createdAt = ascii ''2030-01-01T00:00:00.000Z'',
          updatedAt = ascii ''2030-01-01T00:00:00.000Z''\<rparr>,
       candidates =
         [\<lparr>member_name = ascii ''Lee'', member_knoxId = Some (ascii ''l1'')\<rparr>,
          \<lparr>member_name = ascii '' Lee'', member_knoxId = Some (ascii ''l2'')\<rparr>]\<rparr>]"

section \<open>Facts about strings\<close>

lemma search_iff: "search kw s \<longleftrightarrow> (\<exists>a b. s = a @ kw @ b)"
proof (induction s)
  case Nil
  show ?case by auto
next
  case (Cons c s)
  show ?case
  proof
    assume "search kw (c # s)"
    then consider "prefix kw (c # s)" | "search kw s" by auto
    then show "\<exists>a b. c # s = a @ kw @ b"
    proof cases
      case 1
      then obtain b where "c # s = kw @ b" by (auto simp: prefix_def)
      then have "c # s = [] @ kw @ b" by simp
      then show ?thesis by blast
    next
      case 2
      with Cons.IH obtain a b where "s = a @ kw @ b" by blast
      then have "c # s = (c # a) @ kw @ b" by simp
      then show ?thesis by blast
    qed
  next
    assume "\<exists>a b. c # s = a @ kw @ b"
    then obtain a b where ab: "c # s = a @ kw @ b" by blast
    show "search kw (c # s)"
    proof (cases a)
      case Nil
      with ab have "prefix kw (c # s)" by (simp add: prefix_def)
      then show ?thesis by simp
    next
      case (Cons x a')
      with ab have "s = a' @ kw @ b" by simp
      with Cons.IH have "search kw s" by blast
      then show ?thesis by simp
    qed
  qed
qed

lemma search_rev: "search (rev kw) (rev s) = search kw s"
proof -
  have "(\<exists>a b. rev s = a @ rev kw @ b) \<longleftrightarrow> (\<exists>a b. s = a @ kw @ b)"
  proof
    assume "\<exists>a b. rev s = a @ rev kw @ b"
    then obtain a b where "rev s = a @ rev kw @ b" by blast
    then have "rev (rev s) = rev (a @ rev kw @ b)" by simp
    then have "s = rev b @ kw @ rev a" by simp
    then show "\<exists>a b. s = a @ kw @ b" by blast
  next
    assume "\<exists>a b. s = a @ kw @ b"
    then obtain a b where "s = a @ kw @ b" by blast
    then have "rev s = rev b @ rev kw @ rev a" by simp
    then show "\<exists>a b. rev s = a @ rev kw @ b" by blast
  qed
  then show ?thesis by (simp add: search_iff)
qed

lemma search_dropWhile:
  assumes "kw \<noteq> []" and "\<not> P (hd kw)"
  shows "search kw (dropWhile P s) = search kw s"
proof (induction s)
  case Nil
  show ?case by simp
next
  case (Cons c s)
  show ?case
  proof (cases "P c")
    case True
    from assms obtain k ks where kw: "kw = k # ks" and "\<not> P k" by (cases kw) auto
    with True have "\<not> prefix kw (c # s)" by auto
    with True Cons.IH show ?thesis by simp
  next
    case False
    then show ?thesis by simp
  qed
qed

lemma search_trim:
  assumes "kw \<noteq> []" and "\<not> isWhiteSpace (hd kw)" and "\<not> isWhiteSpace (last kw)"
  shows "search kw (trim s) = search kw s"
proof -
  have r: "rev kw \<noteq> []" "\<not> isWhiteSpace (hd (rev kw))"
    using assms by (simp_all add: hd_rev)
  have "search kw (trim s) = search (rev kw) (dropWhile isWhiteSpace (rev (dropWhile isWhiteSpace s)))"
    unfolding trim_def by (subst search_rev [symmetric]) simp
  also have "\<dots> = search (rev kw) (rev (dropWhile isWhiteSpace s))"
    using r by (rule search_dropWhile)
  also have "\<dots> = search kw (dropWhile isWhiteSpace s)"
    by (rule search_rev)
  also have "\<dots> = search kw s"
    using assms(1,2) by (rule search_dropWhile)
  finally show ?thesis .
qed

lemma search_keywords_trim:
  "search kw_yeoncha (trim s) = search kw_yeoncha s"
  "search kw_hyuga (trim s) = search kw_hyuga s"
  "search kw_gyoyuk (trim s) = search kw_gyoyuk s"
  "search kw_hyeopryeoksa (trim s) = search kw_hyeopryeoksa s"
  "search kw_geomjin (trim s) = search kw_geomjin s"
  by (rule search_trim;
      simp add: kw_yeoncha_def kw_hyuga_def kw_gyoyuk_def kw_hyeopryeoksa_def kw_geomjin_def
        isWhiteSpace_def)+

section \<open>Classification of purposes\<close>

text \<open>
  Claim C9. \<^verbatim>\<open>classifyPurpose\<close> applies its keyword rules in a fixed priority
  order. For every purpose string (trimmed or not): if it contains the keyword
  U+C5F0 U+CC28 or the keyword U+D734 U+AC00 it is classified as vacation, also when
  it contains the education keyword U+AD50 U+C721; otherwise, if it contains the
  education keyword, as education; otherwise, if it contains U+D611 U+B825 U+C0AC or
  U+AC80 U+C9C4, as others; every other purpose is a trip. Containment is occurrence
  as a contiguous substring.
\<close>

theorem classifyPurpose_priority:
  "classifyPurpose p =
     (if (\<exists>a b. p = a @ kw_yeoncha @ b) \<or> (\<exists>a b. p = a @ kw_hyuga @ b) then Vacation
      else if (\<exists>a b. p = a @ kw_gyoyuk @ b) then Education
      else if (\<exists>a b. p = a @ kw_hyeopryeoksa @ b) \<or> (\<exists>a b. p = a @ kw_geomjin @ b) then Others
      else Trip)"
  unfolding classifyPurpose_def Let_def search_keywords_trim
  by (simp only: search_iff)

theorem classifyPurpose_priority_witness:
  "classifyPurpose ([32] @ kw_gyoyuk @ [32] @ kw_hyuga) = Vacation
   \<and> classifyPurpose (kw_gyoyuk @ [49]) = Education
   \<and> classifyPurpose (kw_geomjin) = Others
   \<and> classifyPurpose (ascii ''LA'') = Trip"
proof -
  have v: "\<exists>a b. [32] @ kw_gyoyuk @ [32] @ kw_hyuga = a @ kw_hyuga @ b"
    by (rule exI [of _ "[32] @ kw_gyoyuk @ [32]"], rule exI [of _ "[]"]) simp
  have 1: "classifyPurpose ([32] @ kw_gyoyuk @ [32] @ kw_hyuga) = Vacation"
    using v by (subst classifyPurpose_priority) (simp only: if_True simp_thms)
  have 2: "classifyPurpose (kw_gyoyuk @ [49]) = Education"
    by (simp add: classifyPurpose_def trim_def isWhiteSpace_def kw_yeoncha_def kw_hyuga_def
        kw_gyoyuk_def)
  have 3: "classifyPurpose (kw_geomjin) = Others"
    by (simp add: classifyPurpose_def trim_def isWhiteSpace_def kw_yeoncha_def kw_hyuga_def
        kw_gyoyuk_def kw_geomjin_def kw_hyeopryeoksa_def)
  have 4: "classifyPurpose (ascii ''LA'') = Trip"
    by (simp add: classifyPurpose_def trim_def isWhiteSpace_def kw_yeoncha_def kw_hyuga_def
        kw_gyoyuk_def kw_geomjin_def kw_hyeopryeoksa_def ascii_def)
  from 1 2 3 4 show ?thesis by simp
qed

section \<open>Facts about numbers and dates\<close>

lemma digits_of_nat_small: "n < 10 \<Longrightarrow> digits_of_nat n = [48 + n]"
  by (simp add: digits_of_nat.simps)

lemma digits_of_nat_large: "10 \<le> n \<Longrightarrow> digits_of_nat n = digits_of_nat (n div 10) @ [48 + n mod 10]"
  by (subst digits_of_nat.simps) simp

lemma digits_of_nat_isDigit: "list_all isDigit (digits_of_nat n)"
proof (induction n rule: digits_of_nat.induct)
  case (1 n)
  show ?case
  proof (cases "n < 10")
    case True
    then show ?thesis by (simp add: digits_of_nat_small isDigit_def)
  next
    case False
    have "n mod 10 < 10" by simp
    then have "isDigit (48 + n mod 10)" unfolding isDigit_def by linarith
    with False 1 show ?thesis by (simp add: digits_of_nat_large)
  qed
qed

lemma digits_of_nat_length4:
  assumes "1000 \<le> n" and "n \<le> 9999"
  shows "length (digits_of_nat n) = 4"
proof -
  have a: "10 \<le> n" "10 \<le> n div 10" "10 \<le> n div 10 div 10" "n div 10 div 10 div 10 < 10"
    using assms by auto
  show ?thesis
    by (simp add: digits_of_nat_large [OF a(1)] digits_of_nat_large [OF a(2)]
        digits_of_nat_large [OF a(3)] digits_of_nat_small [OF a(4)])
qed

lemma pad_two_digits: "n < 100 \<Longrightarrow> padStart 2 48 (digits_of_nat n) = two_digits n"
  by (cases "n < 10") (simp_all add: padStart_def two_digits_def digits_of_nat_small digits_of_nat_large)

lemma digit_group_value: "digit_group a \<Longrightarrow> nat_of_digits a < 100"
proof -
  assume g: "digit_group a"
  then consider x where "a = [x]" "isDigit x" | x y where "a = [x, y]" "isDigit x" "isDigit y"
    unfolding digit_group_def
    by (cases a; cases "tl a"; cases "tl (tl a)") auto
  then show ?thesis
    by cases (auto simp: nat_of_digits_def isDigit_def)
qed

lemma digit_not_space: "isDigit c \<Longrightarrow> \<not> isWhiteSpace c"
  by (auto simp: isDigit_def isWhiteSpace_def)

lemma parseInt_digits:
  assumes "a \<noteq> []" and "list_all isDigit a"
  shows "parseInt a = Some (int (nat_of_digits a))"
proof -
  from assms obtain x r where a: "a = x # r" and x: "isDigit x"
    by (cases a) auto
  from x have ns: "\<not> isWhiteSpace x" by (rule digit_not_space)
  from x have sg: "x \<noteq> 45" "x \<noteq> 43" by (auto simp: isDigit_def)
  have dw: "dropWhile isWhiteSpace a = a" using a ns by simp
  have tw: "takeWhile isDigit a = a" using assms(2) by (simp add: list_all_iff)
  have "parseInt a = (if takeWhile isDigit a = [] then None
                      else Some (int (nat_of_digits (takeWhile isDigit a))))"
    unfolding parseInt_def Let_def dw using a sg by simp
  then show ?thesis unfolding tw using assms(1) by simp
qed

lemma search_single: "search [c] s = (c \<in> set s)"
  by (induction s) auto

lemma split_on_absent: "sep \<notin> set b \<Longrightarrow> split_on sep b = [b]"
  by (induction b) auto

lemma split_on_first: "sep \<notin> set a \<Longrightarrow> split_on sep (a @ sep # r) = a # split_on sep r"
  by (induction a) auto

lemma date_parts_groups:
  assumes "list_all isDigit a" and "list_all isDigit b" and "sep = 45 \<or> sep = 46"
  shows "date_parts (a @ [sep] @ b) = [a, b]"
proof -
  have na: "45 \<notin> set a" "46 \<notin> set a" and nb: "45 \<notin> set b" "46 \<notin> set b"
    using assms(1,2) by (auto simp: list_all_iff isDigit_def)
  from assms(3) show ?thesis
  proof
    assume "sep = 45"
    then show ?thesis
      using na nb by (simp add: date_parts_def search_single split_on_first split_on_absent)
  next
    assume "sep = 46"
    then show ?thesis
      using na nb by (simp add: date_parts_def search_single split_on_first split_on_absent)
  qed
qed

lemma short_pattern_groups:
  assumes "digit_group a" and "digit_group b" and "sep = 45 \<or> sep = 46"
  shows "short_pattern (a @ [sep] @ b)"
proof -
  from assms(3) have ns: "\<not> isDigit sep" by (auto simp: isDigit_def)
  from assms(1) have da: "\<forall>x\<in>set a. isDigit x" by (simp add: digit_group_def list_all_iff)
  have tw: "takeWhile isDigit (a @ [sep] @ b) = a"
    using da ns by (simp add: takeWhile_append2)
  have dw: "dropWhile isDigit (a @ [sep] @ b) = sep # b"
    using da ns by (simp add: dropWhile_append2)
  show ?thesis
    unfolding short_pattern_def Let_def tw dw using assms by (simp add: digit_group_def)
qed

lemma parseMonthDay_groups:
  assumes "trim s = a @ [sep] @ b" and "digit_group a" and "digit_group b" and "sep = 45 \<or> sep = 46"
  shows "parseMonthDay s = (Some (int (nat_of_digits a)), Some (int (nat_of_digits b)))"
proof -
  from assms(2,3) have ne: "a \<noteq> []" "b \<noteq> []" and d: "list_all isDigit a" "list_all isDigit b"
    by (auto simp: digit_group_def)
  have "date_parts (trim s) = [a, b]"
    unfolding assms(1) using d assms(4) by (rule date_parts_groups)
  then show ?thesis
    by (simp add: parseMonthDay_def Let_def at_index_def parseInt_arg_def parseInt_digits ne d)
qed

lemma format_date_two_digits:
  assumes "m < 100" and "d < 100"
  shows "format_date y (Some (int m)) (Some (int d)) =
           String_of_number y @ [45] @ two_digits m @ [45] @ two_digits d"
  using assms by (simp add: format_date_def String_of_number_def string_of_int_def pad_two_digits)

lemma two_digits_isDigit: "k < 100 \<Longrightarrow> list_all isDigit (two_digits k)"
proof -
  assume "k < 100"
  then have "k div 10 < 10" by simp
  moreover have "k mod 10 < 10" by simp
  ultimately show ?thesis unfolding two_digits_def isDigit_def by simp
qed

lemma format_date_shape:
  assumes "1000 \<le> y" and "y \<le> 9999" and "m < 100" and "d < 100"
  shows "date_shape (string_of_int y @ [45] @ two_digits m @ [45] @ two_digits d)"
proof -
  have n: "1000 \<le> nat y" "nat y \<le> 9999" using assms by auto
  have l: "length (string_of_int y) = 4" and g: "list_all isDigit (string_of_int y)"
    using assms n by (simp_all add: string_of_int_def digits_of_nat_length4 digits_of_nat_isDigit)
  have lm: "length (two_digits m) = 2" and ld: "length (two_digits d) = 2"
    by (simp_all add: two_digits_def)
  show ?thesis
    unfolding date_shape_def
    using l g lm ld two_digits_isDigit [OF assms(3)] two_digits_isDigit [OF assms(4)]
    by (simp add: nth_append)
qed

text \<open>The short branch of \<open>normalizeDateRange\<close>, for any year number.\<close>

lemma normalizeDateRange_groups:
  assumes "trim startStr = a @ [s1] @ b" and "trim endStr = c @ [s2] @ d"
    and "digit_group a" and "digit_group b" and "digit_group c" and "digit_group d"
    and "s1 = 45 \<or> s1 = 46" and "s2 = 45 \<or> s2 = 46"
  shows "normalizeDateRange startStr endStr y =
           (String_of_number (if nat_of_digits a > nat_of_digits c then num_minus y 1 else y) @
              [45] @ two_digits (nat_of_digits a) @ [45] @ two_digits (nat_of_digits b),
            String_of_number y @ [45] @ two_digits (nat_of_digits c) @ [45] @
              two_digits (nat_of_digits d))"
proof -
  have "short_pattern (a @ [s1] @ b)"
    using assms(3,4,7) by (rule short_pattern_groups)
  moreover have "short_pattern (c @ [s2] @ d)"
    using assms(5,6,8) by (rule short_pattern_groups)
  ultimately have sh: "isShortDate startStr" "isShortDate endStr"
    unfolding isShortDate_def assms(1,2) by simp_all
  have ps: "parseMonthDay startStr = (Some (int (nat_of_digits a)), Some (int (nat_of_digits b)))"
    using assms(1,3,4,7) by (rule parseMonthDay_groups)
  have pe: "parseMonthDay endStr = (Some (int (nat_of_digits c)), Some (int (nat_of_digits d)))"
    using assms(2,5,6,8) by (rule parseMonthDay_groups)
  have v: "nat_of_digits a < 100" "nat_of_digits b < 100" "nat_of_digits c < 100"
    "nat_of_digits d < 100"
    using assms(3-6) by (simp_all add: digit_group_value)
  show ?thesis
    unfolding normalizeDateRange_def Let_def ps pe
    using sh v by (simp add: num_gt_def format_date_two_digits)
qed

lemmas date_eval = normalizeDateRange_def normalizeDate_def isShortDate_def short_pattern_def
  parseMonthDay_def date_parts_def format_date_def parseInt_arg_def parseInt_def at_index_def
  num_gt_def num_minus_def padStart_def String_of_number_def string_of_int_def nat_of_digits_def trim_def
  isWhiteSpace_def isDigit_def ascii_def digits_of_nat_small digits_of_nat_large Let_def

section \<open>Year boundaries\<close>

text \<open>
  The years that \<^verbatim>\<open>normalizeDateRange\<close> gives out. For every base year \<open>y\<close> and
  every date range whose two endpoints are, after trimming, in short form (one or two
  digits, a hyphen or a full stop, one or two digits): the end date gets the base
  year, and the start date gets the previous year exactly when the start month is
  strictly greater than the end month, otherwise the base year too. Month and day are
  printed with two digits. The year is printed by the template literal as the decimal
  number it is, so the outputs are known to have the shape \<^verbatim>\<open>YYYY-MM-DD\<close> for
  \<open>1000 < y \<le> 9999\<close> only.
\<close>

lemma normalizeDateRange_short:
  assumes "trim startStr = a @ [s1] @ b" and "trim endStr = c @ [s2] @ d"
    and "digit_group a" and "digit_group b" and "digit_group c" and "digit_group d"
    and "s1 = 45 \<or> s1 = 46" and "s2 = 45 \<or> s2 = 46"
  shows "normalizeDateRange startStr endStr (Some y) =
           (string_of_int (if nat_of_digits a > nat_of_digits c then y - 1 else y) @ [45] @
              two_digits (nat_of_digits a) @ [45] @ two_digits (nat_of_digits b),
            string_of_int y @ [45] @ two_digits (nat_of_digits c) @ [45] @
              two_digits (nat_of_digits d))
         \<and> (1000 < y \<and> y \<le> 9999 \<longrightarrow>
              date_shape (fst (normalizeDateRange startStr endStr (Some y))) \<and>
              date_shape (snd (normalizeDateRange startStr endStr (Some y))))"
proof -
  let ?sy = "if nat_of_digits a > nat_of_digits c then y - 1 else y"
  have v: "nat_of_digits a < 100" "nat_of_digits b < 100" "nat_of_digits c < 100"
    "nat_of_digits d < 100"
    using assms(3-6) by (simp_all add: digit_group_value)
  have eq: "normalizeDateRange startStr endStr (Some y) =
           (string_of_int ?sy @ [45] @
              two_digits (nat_of_digits a) @ [45] @ two_digits (nat_of_digits b),
            string_of_int y @ [45] @ two_digits (nat_of_digits c) @ [45] @
              two_digits (nat_of_digits d))"
    unfolding normalizeDateRange_groups [OF assms]
    by (simp add: String_of_number_def num_minus_def)
  have iso: "date_shape (fst (normalizeDateRange startStr endStr (Some y))) \<and>
             date_shape (snd (normalizeDateRange startStr endStr (Some y)))"
    if y: "1000 < y \<and> y \<le> 9999"
  proof -
    from y have "1000 \<le> ?sy" "?sy \<le> 9999" "1000 \<le> y" "y \<le> 9999" by auto
    then show ?thesis
      unfolding eq fst_conv snd_conv using v by (simp only: format_date_shape simp_thms)
  qed
  from eq iso show ?thesis by blast
qed

lemma normalizeDateRange_short_example:
  "normalizeDateRange (ascii '' 12-29'') (ascii ''2.5'') (Some 2026) = (ascii ''2025-12-29'', ascii ''2026-02-05'')
   \<and> date_shape (fst (normalizeDateRange (ascii '' 12-29'') (ascii ''2.5'') (Some 2026)))
   \<and> date_shape (snd (normalizeDateRange (ascii '' 12-29'') (ascii ''2.5'') (Some 2026)))"
proof -
  have t: "trim (ascii '' 12-29'') = [49, 50] @ [45] @ [50, 57]" "trim (ascii ''2.5'') = [50] @ [46] @ [53]"
    by (simp_all add: trim_def ascii_def isWhiteSpace_def)
  have g: "digit_group [49, 50]" "digit_group [50, 57]" "digit_group [50]" "digit_group [53]"
    by (simp_all add: digit_group_def isDigit_def)
  have s: "(45::nat) = 45 \<or> (45::nat) = 46" "(46::nat) = 45 \<or> (46::nat) = 46" by simp_all
  have y: "(1000::int) < 2026 \<and> (2026::int) \<le> 9999" by simp
  from normalizeDateRange_short [OF t g s, of 2026] y
  show ?thesis
    by (simp add: nat_of_digits_def two_digits_def string_of_int_def digits_of_nat_small
        digits_of_nat_large ascii_def date_shape_def isDigit_def)
qed

section \<open>Facts about the main loop\<close>

lemma match_knoxId_total: "match_knoxId cands = Inr (block_knoxId cands)"
proof (cases cands)
  case None
  then show ?thesis by (simp add: match_knoxId_def block_knoxId_def)
next
  case (Some cs)
  show ?thesis
  proof (cases cs)
    case Nil
    with Some show ?thesis by (simp add: match_knoxId_def block_knoxId_def)
  next
    case (Cons c r)
    with Some show ?thesis
      by (cases r) (simp_all add: match_knoxId_def block_knoxId_def at_index_def)
  qed
qed

lemma dateMatch_Some:
  "dateMatch line = Some (g1, g2) \<Longrightarrow> g1 = take 5 line \<and> mmdd g1 \<and> (\<forall>e. g2 = Some e \<longrightarrow> mmdd e)"
  by (auto simp: dateMatch_def split: if_splits list.splits)

lemma dateMatch_start: "dateMatch line = Some (g1, g2) \<Longrightarrow> g1 = start_str line"
  by (simp add: dateMatch_Some start_str_def)

lemma dateMatch_end:
  assumes "dateMatch line = Some (g1, g2)"
  shows "(case g2 of None \<Rightarrow> start_str line | Some e \<Rightarrow> if e = [] then start_str line else e) =
         end_str line"
proof (cases g2)
  case None
  with assms show ?thesis by (simp add: end_str_def start_str_def)
next
  case (Some e)
  with dateMatch_Some [OF assms] have "mmdd e" by simp
  then have "e \<noteq> []" by (auto simp: mmdd_def)
  with assms Some show ?thesis by (simp add: end_str_def)
qed

lemma scan_line_eq:
  assumes "i < length lines"
  shows "scan_line env mm y lines i st =
           (if is_block lines i then
              (if randomUUID env = None then Inl TypeError
               else Inr (Some \<lparr>pushed = pushed st @
                                  [block_trip env mm y lines (length (pushed st), i)],
                                unknown = block_unknown mm lines (unknown st) i\<rparr>))
            else Inr None)"
proof (cases "dateMatch (lines ! i)")
  case None
  with assms show ?thesis by (simp add: scan_line_def at_index_def is_block_def)
next
  case (Some g)
  obtain g1 g2 where g: "g = (g1, g2)" by (cases g)
  from Some g have g1: "g1 = start_str (lines ! i)" by (simp add: dateMatch_start)
  from Some g have dm: "(case g2 of None \<Rightarrow> start_str (lines ! i)
      | Some e \<Rightarrow> if e = [] then start_str (lines ! i) else e) = end_str (lines ! i)"
    by (simp add: dateMatch_end)
  show ?thesis
  proof (cases "i + 2 < length lines")
    case False
    with assms Some show ?thesis by (simp add: scan_line_def at_index_def is_block_def g)
  next
    case True
    then have i1: "i + 1 < length lines" by simp
    show ?thesis
    proof (cases "isName (trim (lines ! (i + 1)))")
      case False
      with assms Some True i1 show ?thesis
        by (simp add: scan_line_def at_index_def is_block_def g bind_result_def trim_of_def)
    next
      case nm: True
      with Some True have b: "is_block lines i" by (simp add: is_block_def)
      show ?thesis
        using assms Some True i1 nm b
        by (cases "randomUUID env")
          (simp_all add: scan_line_def at_index_def g g1 dm bind_result_def trim_of_def
            match_knoxId_total block_trip_def block_unknown_def Let_def call_randomUUID_def
            uuid_of_def)
    qed
  qed
qed

lemma scan_loop_end: "\<not> i < length lines \<Longrightarrow> scan_loop env mm y lines i st = Inr st"
  by (subst scan_loop.simps) simp

lemma scan_loop_skip:
  "i < length lines \<Longrightarrow> \<not> is_block lines i \<Longrightarrow>
     scan_loop env mm y lines i st = scan_loop env mm y lines (i + 1) st"
  by (subst scan_loop.simps) (simp add: scan_line_eq)

lemma scan_loop_throw:
  "i < length lines \<Longrightarrow> is_block lines i \<Longrightarrow> randomUUID env = None \<Longrightarrow>
     scan_loop env mm y lines i st = Inl TypeError"
  by (subst scan_loop.simps) (simp add: scan_line_eq)

lemma scan_loop_take:
  "i < length lines \<Longrightarrow> is_block lines i \<Longrightarrow> randomUUID env \<noteq> None \<Longrightarrow>
     scan_loop env mm y lines i st =
     scan_loop env mm y lines (i + 3)
       \<lparr>pushed = pushed st @ [block_trip env mm y lines (length (pushed st), i)],
        unknown = block_unknown mm lines (unknown st) i\<rparr>"
  by (subst scan_loop.simps) (auto simp: scan_line_eq)

lemma block_starts_end: "\<not> i < length lines \<Longrightarrow> block_starts lines i = []"
  by (subst block_starts.simps) simp

lemma block_starts_skip:
  "i < length lines \<Longrightarrow> \<not> is_block lines i \<Longrightarrow> block_starts lines i = block_starts lines (i + 1)"
  by (subst block_starts.simps) simp

lemma block_starts_take:
  "i < length lines \<Longrightarrow> is_block lines i \<Longrightarrow> block_starts lines i = i # block_starts lines (i + 3)"
  by (subst block_starts.simps) simp

lemma scan_loop_eq:
  "randomUUID env \<noteq> None \<Longrightarrow>
   scan_loop env mm y lines i st =
     Inr \<lparr>pushed = pushed st @
            map (block_trip env mm y lines) (enumerate (length (pushed st)) (block_starts lines i)),
          unknown = foldl (block_unknown mm lines) (unknown st) (block_starts lines i)\<rparr>"
proof (induction lines i arbitrary: st rule: block_starts.induct)
  case (1 lines i)
  show ?case
  proof (cases "i < length lines")
    case False
    then show ?thesis by (simp add: scan_loop_end block_starts_end)
  next
    case True
    show ?thesis
    proof (cases "is_block lines i")
      case False
      with True "1.IH"(2) "1.prems" show ?thesis
        by (simp add: scan_loop_skip block_starts_skip)
    next
      case b: True
      with True "1.IH"(1) "1.prems" show ?thesis
        by (simp add: scan_loop_take block_starts_take enumerate_simps)
    qed
  qed
qed

text \<open>
  Where \<^verbatim>\<open>crypto.randomUUID\<close> is absent the loop ends normally exactly when it meets no
  block; at the first block it throws.
\<close>

lemma scan_loop_nouuid:
  "randomUUID env = None \<Longrightarrow>
   scan_loop env mm y lines i st =
     (if block_starts lines i = [] then Inr st else Inl TypeError)"
proof (induction lines i arbitrary: st rule: block_starts.induct)
  case (1 lines i)
  show ?case
  proof (cases "i < length lines")
    case False
    then show ?thesis by (simp add: scan_loop_end block_starts_end)
  next
    case True
    show ?thesis
    proof (cases "is_block lines i")
      case False
      with True "1.IH"(2) "1.prems" show ?thesis
        by (simp add: scan_loop_skip block_starts_skip)
    next
      case b: True
      with True "1.prems" show ?thesis
        by (simp add: scan_loop_throw block_starts_take)
    qed
  qed
qed

lemma dropWhile_id: "xs = [] \<or> \<not> P (hd xs) \<Longrightarrow> dropWhile P xs = xs"
  by (cases xs) auto

lemma hd_dropWhile_not: "dropWhile P xs \<noteq> [] \<Longrightarrow> \<not> P (hd (dropWhile P xs))"
  by (rule hd_dropWhile)

lemma last_dropWhile: "dropWhile P xs \<noteq> [] \<Longrightarrow> last (dropWhile P xs) = last xs"
  by (induction xs) (auto split: if_splits)

lemma trim_ends:
  assumes "trim s \<noteq> []"
  shows "\<not> isWhiteSpace (hd (trim s))" and "\<not> isWhiteSpace (last (trim s))"
proof -
  let ?a = "dropWhile isWhiteSpace s"
  let ?b = "dropWhile isWhiteSpace (rev ?a)"
  from assms have b: "?b \<noteq> []" by (simp add: trim_def)
  have a: "?a \<noteq> []"
  proof
    assume e: "?a = []"
    have "?b = []" unfolding e by simp
    with b show False by simp
  qed
  have "last (trim s) = hd ?b" using b by (simp add: trim_def last_rev)
  with hd_dropWhile [OF b] show "\<not> isWhiteSpace (last (trim s))" by simp
  have "hd (trim s) = last ?b" using b by (simp add: trim_def hd_rev)
  also have "\<dots> = last (rev ?a)" using b by (rule last_dropWhile)
  also have "\<dots> = hd ?a" using a by (simp add: last_rev)
  finally show "\<not> isWhiteSpace (hd (trim s))" using hd_dropWhile [OF a] by simp
qed

lemma trim_id:
  assumes "s = [] \<or> (\<not> isWhiteSpace (hd s) \<and> \<not> isWhiteSpace (last s))"
  shows "trim s = s"
proof (cases "s = []")
  case True
  then show ?thesis by (simp add: trim_def)
next
  case False
  with assms have h: "\<not> isWhiteSpace (hd s)" and l: "\<not> isWhiteSpace (last s)" by auto
  have 1: "dropWhile isWhiteSpace s = s" using h by (simp add: dropWhile_id)
  have "\<not> isWhiteSpace (hd (rev s))" using l False by (simp add: hd_rev)
  then have 2: "dropWhile isWhiteSpace (rev s) = rev s" by (simp add: dropWhile_id)
  show ?thesis by (simp add: trim_def 1 2)
qed

lemma trim_trim: "trim (trim s) = trim s"
  by (rule trim_id) (use trim_ends [of s] in blast)

lemma text_lines_trimmed:
  assumes "l \<in> set (text_lines text)"
  shows "l \<noteq> []" and "trim l = l"
  using assms by (auto simp: text_lines_def trim_trim)

lemma text_lines_nth:
  "i < length (text_lines text) \<Longrightarrow> trim (text_lines text ! i) = text_lines text ! i"
  by (rule text_lines_trimmed(2)) (rule nth_mem)

lemma memberMap_loop_eq:
  "memberMap_loop mp ms =
     Inr (\<lambda>k. case mp k of
                 None \<Rightarrow> (if filter (\<lambda>m. trim (member_name m) = k) ms = [] then None
                          else Some (filter (\<lambda>m. trim (member_name m) = k) ms))
               | Some xs \<Rightarrow> Some (xs @ filter (\<lambda>m. trim (member_name m) = k) ms))"
proof (induction ms arbitrary: mp)
  case Nil
  show ?case by (auto simp: fun_eq_iff split: option.splits)
next
  case (Cons m ms)
  let ?key = "trim (member_name m)"
  let ?mp1 = "mp(?key \<mapsto> (case mp ?key of None \<Rightarrow> [] | Some xs \<Rightarrow> xs) @ [m])"
  have a: "memberMap_add mp m = Inr ?mp1"
    by (auto simp: memberMap_add_def Let_def split: option.splits)
  have "memberMap_loop mp (m # ms) = memberMap_loop ?mp1 ms"
    by (simp add: a bind_result_def)
  also note Cons.IH [of ?mp1]
  also have "(\<lambda>k. case ?mp1 k of
                 None \<Rightarrow> (if filter (\<lambda>m. trim (member_name m) = k) ms = [] then None
                          else Some (filter (\<lambda>m. trim (member_name m) = k) ms))
               | Some xs \<Rightarrow> Some (xs @ filter (\<lambda>m. trim (member_name m) = k) ms)) =
      (\<lambda>k. case mp k of
                 None \<Rightarrow> (if filter (\<lambda>m. trim (member_name m) = k) (m # ms) = [] then None
                          else Some (filter (\<lambda>m. trim (member_name m) = k) (m # ms)))
               | Some xs \<Rightarrow> Some (xs @ filter (\<lambda>m. trim (member_name m) = k) (m # ms)))"
    by (auto simp: fun_eq_iff split: option.splits)
  finally show ?case .
qed

lemma build_memberMap_eq: "build_memberMap ms = Inr (memberMap_of ms)"
proof -
  have "(\<lambda>k. case Map.empty k of
                 None \<Rightarrow> (if filter (\<lambda>m. trim (member_name m) = k) ms = [] then None
                          else Some (filter (\<lambda>m. trim (member_name m) = k) ms))
               | Some xs \<Rightarrow> Some (xs @ filter (\<lambda>m. trim (member_name m) = k) ms)) =
        memberMap_of ms"
    by (simp add: fun_eq_iff memberMap_of_def)
  then show ?thesis by (simp add: build_memberMap_def memberMap_loop_eq)
qed

lemma block_starts_props:
  "j \<in> set (block_starts lines i) \<Longrightarrow> is_block lines j \<and> i \<le> j"
proof (induction lines i rule: block_starts.induct)
  case (1 lines i)
  show ?case
  proof (cases "i < length lines")
    case False
    with "1.prems" show ?thesis by (simp add: block_starts_end)
  next
    case True
    show ?thesis
    proof (cases "is_block lines i")
      case False
      with True "1.prems" "1.IH"(2) show ?thesis
        by (auto simp: block_starts_skip)
    next
      case b: True
      with True "1.prems" "1.IH"(1) show ?thesis
        by (auto simp: block_starts_take)
    qed
  qed
qed

lemma block_starts_sorted: "sorted_wrt (<) (block_starts lines i)"
proof (induction lines i rule: block_starts.induct)
  case (1 lines i)
  show ?case
  proof (cases "i < length lines")
    case False
    then show ?thesis by (simp add: block_starts_end)
  next
    case True
    show ?thesis
    proof (cases "is_block lines i")
      case False
      with True "1.IH"(2) show ?thesis by (simp add: block_starts_skip)
    next
      case b: True
      have "\<forall>j\<in>set (block_starts lines (i + 3)). i < j"
        using block_starts_props [of _ lines "i + 3"] by fastforce
      with True b "1.IH"(1) show ?thesis by (simp add: block_starts_take)
    qed
  qed
qed

text \<open>A date line is not a name.\<close>

lemma date_line_not_name:
  assumes "dateMatch l \<noteq> None"
  shows "\<not> isName (trim l)"
proof -
  from assms obtain g1 g2 where "dateMatch l = Some (g1, g2)" by auto
  from dateMatch_Some [OF this] have m: "mmdd (take 5 l)" by blast
  then have len: "5 \<le> length l" and d: "isDigit (l ! 0)"
    by (auto simp: mmdd_def)
  then obtain c r where l: "l = c # r" by (cases l) auto
  with d have c: "isDigit c" by simp
  have "dropWhile isWhiteSpace l = l" using l c by (simp add: digit_not_space)
  moreover have "dropWhile isWhiteSpace (rev l) \<noteq> []"
  proof
    assume "dropWhile isWhiteSpace (rev l) = []"
    then have "\<forall>x\<in>set l. isWhiteSpace x" by (simp add: dropWhile_eq_Nil_conv)
    with l c show False by (simp add: digit_not_space)
  qed
  ultimately have ne: "trim l \<noteq> []" by (simp add: trim_def)
  have "hd (trim l) = c"
  proof -
    let ?b = "dropWhile isWhiteSpace (rev l)"
    have b: "?b \<noteq> []" by fact
    have "hd (trim l) = last ?b" using b \<open>dropWhile isWhiteSpace l = l\<close> by (simp add: trim_def hd_rev)
    also have "\<dots> = last (rev l)" using b by (rule last_dropWhile)
    also have "\<dots> = c" using l by (simp add: last_rev)
    finally show ?thesis .
  qed
  with ne c show ?thesis by (cases "trim l") (auto simp: isName_def)
qed

text \<open>Every index up to the end is reached by the loop, or is the name or purpose line
  of a block the loop takes.\<close>

lemma block_starts_cover:
  "i \<le> j \<Longrightarrow> j < length lines \<Longrightarrow>
     (\<not> is_block lines j \<or> j \<in> set (block_starts lines i)) \<or>
     (1 \<le> j \<and> j - 1 \<in> set (block_starts lines i)) \<or>
     (2 \<le> j \<and> j - 2 \<in> set (block_starts lines i))"
proof (induction lines i rule: block_starts.induct)
  case (1 lines i)
  from "1.prems" have il: "i < length lines" by simp
  show ?case
  proof (cases "is_block lines i")
    case False
    show ?thesis
    proof (cases "i = j")
      case True
      with False show ?thesis by simp
    next
      case ne: False
      with "1.prems" have "i + 1 \<le> j" by simp
      from "1.IH"(2) [OF il False this "1.prems"(2)] show ?thesis
        using il False by (simp add: block_starts_skip)
    qed
  next
    case b: True
    consider "j = i" | "j = i + 1" | "j = i + 2" | "i + 3 \<le> j" using "1.prems" by linarith
    then show ?thesis
    proof cases
      case 1
      with il b show ?thesis by (simp add: block_starts_take)
    next
      case 2
      with il b show ?thesis by (simp add: block_starts_take)
    next
      case 3
      with il b show ?thesis by (simp add: block_starts_take)
    next
      case 4
      from "1.IH"(1) [OF il b this "1.prems"(2)] show ?thesis
        using il b by (auto simp add: block_starts_take)
    qed
  qed
qed

lemma block_starts_gap:
  "k \<in> set (block_starts lines i) \<Longrightarrow> k + 2 \<notin> set (block_starts lines i)"
proof (induction lines i rule: block_starts.induct)
  case (1 lines i)
  show ?case
  proof (cases "i < length lines")
    case False
    with "1.prems" show ?thesis by (simp add: block_starts_end)
  next
    case True
    show ?thesis
    proof (cases "is_block lines i")
      case False
      with True "1.prems" "1.IH"(2) show ?thesis by (simp add: block_starts_skip)
    next
      case b: True
      have ge: "i + 3 \<le> m" if "m \<in> set (block_starts lines (i + 3))" for m
        using that block_starts_props by blast
      from "1.prems" True b consider "k = i" | "k \<in> set (block_starts lines (i + 3))"
        by (auto simp: block_starts_take)
      then show ?thesis
      proof cases
        case 1
        with True b ge [of "i + 2"] show ?thesis by (auto simp: block_starts_take)
      next
        case 2
        with ge [of k] "1.IH"(1) [OF True b 2] True b show ?thesis
          by (auto simp: block_starts_take)
      qed
    qed
  qed
qed

lemma block_starts_criterion:
  assumes "is_block lines j"
  shows "j \<in> set (block_starts lines 0) \<longleftrightarrow> \<not> (2 \<le> j \<and> j - 2 \<in> set (block_starts lines 0))"
proof
  assume m: "j \<in> set (block_starts lines 0)"
  show "\<not> (2 \<le> j \<and> j - 2 \<in> set (block_starts lines 0))"
  proof
    assume c: "2 \<le> j \<and> j - 2 \<in> set (block_starts lines 0)"
    then have "j - 2 + 2 \<notin> set (block_starts lines 0)" using block_starts_gap by blast
    moreover from c have "2 \<le> j" by blast
    then have "j - 2 + 2 = j" by arith
    ultimately show False using m by simp
  qed
next
  assume n: "\<not> (2 \<le> j \<and> j - 2 \<in> set (block_starts lines 0))"
  from assms have jl: "j < length lines" by (simp add: is_block_def)
  from block_starts_cover [of 0 j lines] jl assms n
  consider "j \<in> set (block_starts lines 0)" | "1 \<le> j" "j - 1 \<in> set (block_starts lines 0)"
    by auto
  then show "j \<in> set (block_starts lines 0)"
  proof cases
    case 1
    then show ?thesis .
  next
    case 2
    then have "is_block lines (j - 1)" using block_starts_props by blast
    with 2 have "isName (trim (lines ! j))" by (simp add: is_block_def)
    moreover from assms have "dateMatch (lines ! j) \<noteq> None" by (simp add: is_block_def)
    ultimately show ?thesis using date_line_not_name by blast
  qed
qed

section \<open>Facts about the deduplication pass\<close>

lemma first_occurrences_Nil: "first_occurrences k [] = []"
  by (simp add: first_occurrences_def)

lemma first_occurrences_snoc:
  "first_occurrences k (xs @ [x]) =
     first_occurrences k xs @ (if k x \<in> k ` set xs then [] else [x])"
proof -
  let ?n = "length xs"
  let ?P = "\<lambda>ys i. \<forall>j<i. k (ys ! j) \<noteq> k (ys ! i)"
  have pre: "filter (?P (xs @ [x])) [0..<?n] = filter (?P xs) [0..<?n]"
    by (rule filter_cong) (auto simp: nth_append)
  have m: "map (\<lambda>i. (xs @ [x]) ! i) (filter (?P xs) [0..<?n]) =
           map (\<lambda>i. xs ! i) (filter (?P xs) [0..<?n])"
    by (rule map_cong) (auto simp: nth_append)
  have "?P (xs @ [x]) ?n \<longleftrightarrow> (\<forall>j<?n. k (xs ! j) \<noteq> k x)"
    by (simp add: nth_append)
  also have "\<dots> \<longleftrightarrow> (\<forall>y\<in>set xs. k y \<noteq> k x)"
    by (simp add: all_set_conv_all_nth)
  also have "\<dots> \<longleftrightarrow> k x \<notin> k ` set xs"
    by (metis image_iff)
  finally have last: "?P (xs @ [x]) ?n \<longleftrightarrow> k x \<notin> k ` set xs" .
  show ?thesis
    unfolding first_occurrences_def using pre m last by simp
qed

lemma first_occurrences_subset: "set (first_occurrences k xs) \<subseteq> set xs"
  by (auto simp: first_occurrences_def)

lemma first_occurrences_keys: "k ` set (first_occurrences k xs) = k ` set xs"
  by (induction xs rule: rev_induct) (auto simp: first_occurrences_Nil first_occurrences_snoc)

lemma first_occurrences_distinct: "distinct (map k (first_occurrences k xs))"
proof (induction xs rule: rev_induct)
  case Nil
  show ?case by (simp add: first_occurrences_Nil)
next
  case (snoc x xs)
  have "k x \<notin> k ` set xs \<Longrightarrow> k x \<notin> k ` set (first_occurrences k xs)"
    by (simp add: first_occurrences_keys)
  with snoc show ?case by (auto simp: first_occurrences_snoc)
qed

lemma first_occurrences_cong:
  assumes "\<And>x y. x \<in> set xs \<Longrightarrow> y \<in> set xs \<Longrightarrow> (k x = k y) = (k' x = k' y)"
  shows "first_occurrences k xs = first_occurrences k' xs"
proof -
  have "filter (\<lambda>i. \<forall>j<i. k (xs ! j) \<noteq> k (xs ! i)) [0..<length xs] =
        filter (\<lambda>i. \<forall>j<i. k' (xs ! j) \<noteq> k' (xs ! i)) [0..<length xs]"
    by (rule filter_cong) (auto simp: assms)
  then show ?thesis by (simp add: first_occurrences_def)
qed

text \<open>The element kept for a key is the leftmost one with that key.\<close>

lemma first_occurrences_leftmost:
  assumes "i < length xs"
  shows "\<exists>j\<le>i. xs ! j \<in> set (first_occurrences k xs) \<and> k (xs ! j) = k (xs ! i) \<and>
           (\<forall>m<j. k (xs ! m) \<noteq> k (xs ! i))"
proof -
  define j where "j = (LEAST m. k (xs ! m) = k (xs ! i))"
  have e: "k (xs ! j) = k (xs ! i)" unfolding j_def by (rule LeastI) simp
  have le: "j \<le> i" unfolding j_def by (rule Least_le) simp
  have mn: "k (xs ! m) \<noteq> k (xs ! i)" if "m < j" for m
    using that not_less_Least unfolding j_def by blast
  from le assms have jl: "j < length xs" by simp
  have "xs ! j \<in> set (first_occurrences k xs)"
    unfolding first_occurrences_def using jl mn e by (auto simp: image_iff intro!: bexI [of _ j])
  with e le mn show ?thesis by blast
qed

lemma ambiguous_step:
  "(if knoxId t = None then
      (case mm (name t) of
         None \<Rightarrow> A
       | Some cs \<Rightarrow> if length cs > 1 then A @ [\<lparr>trip = t, candidates = cs\<rparr>] else A)
    else A) =
   A @ (if is_ambiguous mm t then [ambiguous_entry mm t] else [])"
  by (simp add: is_ambiguous_def ambiguous_entry_def split: option.splits)

lemma dedup_step_eq:
  "dedup_step mm d t =
     (if trip_key t \<in> seen d then d
      else \<lparr>uniqueTrips = uniqueTrips d @ [t], seen = insert (trip_key t) (seen d),
             uniqueAmbiguousTrips = uniqueAmbiguousTrips d @
               (if is_ambiguous mm t then [ambiguous_entry mm t] else [])\<rparr>)"
  unfolding dedup_step_def Let_def ambiguous_step ..

lemma dedup_foldl:
  "foldl (dedup_step mm) \<lparr>uniqueTrips = [], seen = {}, uniqueAmbiguousTrips = []\<rparr> ts =
     \<lparr>uniqueTrips = first_occurrences trip_key ts,
      seen = trip_key ` set ts,
      uniqueAmbiguousTrips =
        map (ambiguous_entry mm) (filter (is_ambiguous mm) (first_occurrences trip_key ts))\<rparr>"
proof (induction ts rule: rev_induct)
  case Nil
  show ?case by (simp add: first_occurrences_Nil)
next
  case (snoc t ts)
  let ?init = "\<lparr>uniqueTrips = [], seen = {}, uniqueAmbiguousTrips = []\<rparr>
    :: ('a TeamMember_scheme) dedup_state"
  have "foldl (dedup_step mm) ?init (ts @ [t]) = dedup_step mm (foldl (dedup_step mm) ?init ts) t"
    by simp
  also have "\<dots> = dedup_step mm
     \<lparr>uniqueTrips = first_occurrences trip_key ts,
      seen = trip_key ` set ts,
      uniqueAmbiguousTrips =
        map (ambiguous_entry mm) (filter (is_ambiguous mm) (first_occurrences trip_key ts))\<rparr> t"
    by (simp only: snoc.IH)
  also have "\<dots> =
     \<lparr>uniqueTrips = first_occurrences trip_key (ts @ [t]),
      seen = trip_key ` set (ts @ [t]),
      uniqueAmbiguousTrips =
        map (ambiguous_entry mm)
          (filter (is_ambiguous mm) (first_occurrences trip_key (ts @ [t])))\<rparr>"
    by (simp add: dedup_step_eq first_occurrences_snoc insert_absorb)
  finally show ?case .
qed

lemma dedup_eq:
  "dedup mm ts =
     \<lparr>uniqueTrips = first_occurrences trip_key ts,
      seen = trip_key ` set ts,
      uniqueAmbiguousTrips =
        map (ambiguous_entry mm) (filter (is_ambiguous mm) (first_occurrences trip_key ts))\<rparr>"
  unfolding dedup_def by (rule dedup_foldl)

lemma split_at_last:
  assumes "a @ [c] @ b = a' @ [c] @ b'" and "c \<notin> set b" and "c \<notin> set b'"
  shows "a = a' \<and> b = b'"
proof -
  have tw: "takeWhile (\<lambda>x. x \<noteq> c) (rev u @ c # v) = rev u" if "c \<notin> set u" for u v :: "'a list"
    using that by (subst takeWhile_append2) auto
  have r: "rev (u @ [c] @ w) = rev w @ c # rev u" for u w :: "'a list" by simp
  have 1: "takeWhile (\<lambda>x. x \<noteq> c) (rev (a @ [c] @ b)) = rev b"
    unfolding r using assms(2) by (rule tw)
  have 2: "takeWhile (\<lambda>x. x \<noteq> c) (rev (a' @ [c] @ b')) = rev b'"
    unfolding r using assms(3) by (rule tw)
  have "rev b = rev b'" using 1 2 unfolding assms(1) by (rule trans [OF sym])
  then have "b = b'" by simp
  with assms(1) show ?thesis by simp
qed

lemma trip_key_inj:
  assumes "trip_key t = trip_key t'"
    and "124 \<notin> set (startDate t)" and "124 \<notin> set (endDate t)"
    and "124 \<notin> set (startDate t')" and "124 \<notin> set (endDate t')"
  shows "trip_triple t = trip_triple t'"
proof -
  from assms(1) have "(name t @ [124] @ startDate t) @ [124] @ endDate t =
      (name t' @ [124] @ startDate t') @ [124] @ endDate t'"
    by (simp add: trip_key_def)
  from split_at_last [OF this assms(3,5)]
  have 1: "name t @ [124] @ startDate t = name t' @ [124] @ startDate t'" and 2: "endDate t = endDate t'"
    by simp_all
  from split_at_last [OF 1 assms(2,4)] 2 show ?thesis by (simp add: trip_triple_def)
qed

text \<open>
  First occurrences in a list that follows an increasing list of indices, told by the
  indices.
\<close>

lemma first_occurrences_by_index:
  fixes bs :: "nat list"
  assumes s: "sorted_wrt (<) bs" and g: "map g xs = map G bs"
    and k: "\<And>x. key x = fst (g x)" and T: "\<And>i. T i = fst (G i)"
  shows "map g (first_occurrences key xs) =
           map G (filter (\<lambda>i. \<forall>j\<in>set bs. j < i \<longrightarrow> T j \<noteq> T i) bs)"
proof -
  from g have len: "length xs = length bs" by (rule map_eq_imp_length_eq)
  have el: "g (xs ! n) = G (bs ! n)" if "n < length bs" for n
    using that len nth_map [of n xs g] nth_map [of n bs G] g by simp
  have ke: "key (xs ! n) = T (bs ! n)" if "n < length bs" for n
    using el [OF that] by (simp add: k T)
  have mono: "bs ! m < bs ! n \<longleftrightarrow> m < n" if "m < length bs" "n < length bs" for m n
  proof
    assume "m < n"
    with s that show "bs ! m < bs ! n" by (simp add: sorted_wrt_nth_less)
  next
    assume l: "bs ! m < bs ! n"
    show "m < n"
    proof (rule ccontr)
      assume "\<not> m < n"
      then have "n = m \<or> n < m" by auto
      then show False
      proof
        assume "n = m"
        with l show False by simp
      next
        assume "n < m"
        with s that have "bs ! n < bs ! m" by (simp add: sorted_wrt_nth_less)
        with l show False by simp
      qed
    qed
  qed
  have P: "(\<forall>j\<in>set bs. j < bs ! n \<longrightarrow> T j \<noteq> T (bs ! n)) \<longleftrightarrow>
           (\<forall>m<n. key (xs ! m) \<noteq> key (xs ! n))" if n: "n < length bs" for n
  proof
    assume a: "\<forall>j\<in>set bs. j < bs ! n \<longrightarrow> T j \<noteq> T (bs ! n)"
    show "\<forall>m<n. key (xs ! m) \<noteq> key (xs ! n)"
    proof (intro allI impI)
      fix m
      assume m: "m < n"
      with n have ml: "m < length bs" by simp
      then have "bs ! m \<in> set bs" by simp
      moreover have "bs ! m < bs ! n" using mono [OF ml n] m by simp
      ultimately have "T (bs ! m) \<noteq> T (bs ! n)" using a by blast
      then show "key (xs ! m) \<noteq> key (xs ! n)" by (simp add: ke ml n)
    qed
  next
    assume a: "\<forall>m<n. key (xs ! m) \<noteq> key (xs ! n)"
    show "\<forall>j\<in>set bs. j < bs ! n \<longrightarrow> T j \<noteq> T (bs ! n)"
    proof (intro ballI impI)
      fix j
      assume "j \<in> set bs" and l: "j < bs ! n"
      then obtain m where ml: "m < length bs" and j: "j = bs ! m"
        by (auto simp: in_set_conv_nth)
      from l j mono [OF ml n] have "m < n" by simp
      with a have "key (xs ! m) \<noteq> key (xs ! n)" by blast
      then show "T j \<noteq> T (bs ! n)" by (simp add: ke ml n j)
    qed
  qed
  have fe: "filter (\<lambda>n. \<forall>j\<in>set bs. j < bs ! n \<longrightarrow> T j \<noteq> T (bs ! n)) [0..<length bs] =
        filter (\<lambda>n. \<forall>m<n. key (xs ! m) \<noteq> key (xs ! n)) [0..<length bs]"
    by (rule filter_cong) (simp_all add: P)
  have "map G (filter (\<lambda>i. \<forall>j\<in>set bs. j < i \<longrightarrow> T j \<noteq> T i) bs) =
        map G (filter (\<lambda>i. \<forall>j\<in>set bs. j < i \<longrightarrow> T j \<noteq> T i) (map (\<lambda>n. bs ! n) [0..<length bs]))"
    by (simp add: map_nth)
  also have "\<dots> = map (\<lambda>n. G (bs ! n))
        (filter (\<lambda>n. \<forall>j\<in>set bs. j < bs ! n \<longrightarrow> T j \<noteq> T (bs ! n)) [0..<length bs])"
    by (simp add: filter_map comp_def)
  also have "\<dots> = map (\<lambda>n. G (bs ! n))
        (filter (\<lambda>n. \<forall>m<n. key (xs ! m) \<noteq> key (xs ! n)) [0..<length bs])"
    by (simp only: fe)
  also have "\<dots> = map (\<lambda>n. g (xs ! n))
        (filter (\<lambda>n. \<forall>m<n. key (xs ! m) \<noteq> key (xs ! n)) [0..<length bs])"
    by (rule map_cong) (simp_all add: el)
  also have "\<dots> = map g (first_occurrences key xs)"
    by (simp add: first_occurrences_def len comp_def)
  finally show ?thesis by simp
qed

section \<open>The parser in closed form\<close>

lemma mmdd_groups:
  assumes "mmdd s"
  shows "trim s = take 2 s @ [45] @ drop 3 s" and "digit_group (take 2 s)"
    and "digit_group (drop 3 s)"
proof -
  from assms have len: "length s = 5" by (simp add: mmdd_def)
  then obtain a b c d e where s: "s = [a, b, c, d, e]"
    by (cases s; cases "tl s"; cases "tl (tl s)"; cases "tl (tl (tl s))";
        cases "tl (tl (tl (tl s)))") auto
  from assms s have dg: "isDigit a" "isDigit b" "c = 45" "isDigit d" "isDigit e"
    by (simp_all add: mmdd_def)
  have "trim s = s"
    by (rule trim_id) (use s dg in \<open>simp add: digit_not_space\<close>)
  with s dg show "trim s = take 2 s @ [45] @ drop 3 s" by simp
  from s dg show "digit_group (take 2 s)" "digit_group (drop 3 s)"
    by (simp_all add: digit_group_def)
qed

lemma String_of_number_nobar: "124 \<notin> set (String_of_number y)"
proof (cases y)
  case None
  then show ?thesis by (simp add: String_of_number_def ascii_def)
next
  case (Some i)
  have "\<forall>c\<in>set (digits_of_nat n). c \<noteq> 124" for n
    using digits_of_nat_isDigit [of n] by (auto simp: list_all_iff isDigit_def)
  with Some show ?thesis by (auto simp: String_of_number_def string_of_int_def)
qed

lemma two_digits_nobar: "k < 100 \<Longrightarrow> 124 \<notin> set (two_digits k)"
  using two_digits_isDigit [of k] by (auto simp: list_all_iff isDigit_def)

lemma normalizeDateRange_mmdd_nobar:
  assumes "mmdd s" and "mmdd e"
  shows "124 \<notin> set (fst (normalizeDateRange s e y))"
    and "124 \<notin> set (snd (normalizeDateRange s e y))"
proof -
  note gs = mmdd_groups [OF assms(1)] and ge = mmdd_groups [OF assms(2)]
  have s: "(45::nat) = 45 \<or> (45::nat) = 46" by simp
  note eq = normalizeDateRange_groups [OF gs(1) ge(1) gs(2,3) ge(2,3) s s, of y]
  have v: "nat_of_digits (take 2 s) < 100" "nat_of_digits (drop 3 s) < 100"
    "nat_of_digits (take 2 e) < 100" "nat_of_digits (drop 3 e) < 100"
    using gs(2,3) ge(2,3) by (simp_all add: digit_group_value)
  show "124 \<notin> set (fst (normalizeDateRange s e y))"
    unfolding eq fst_conv using v by (simp add: String_of_number_nobar two_digits_nobar)
  show "124 \<notin> set (snd (normalizeDateRange s e y))"
    unfolding eq snd_conv using v by (simp add: String_of_number_nobar two_digits_nobar)
qed

lemma date_line_mmdd:
  assumes "dateMatch line \<noteq> None"
  shows "mmdd (start_str line)" and "mmdd (end_str line)"
proof -
  from assms obtain g1 g2 where m: "dateMatch line = Some (g1, g2)" by auto
  from dateMatch_Some [OF m] have f: "g1 = take 5 line" "mmdd g1" "\<forall>e. g2 = Some e \<longrightarrow> mmdd e"
    by blast+
  from f(1,2) show "mmdd (start_str line)" by (simp add: start_str_def)
  show "mmdd (end_str line)"
  proof (cases g2)
    case None
    with m f show ?thesis by (simp add: end_str_def)
  next
    case (Some e)
    with m f show ?thesis by (simp add: end_str_def)
  qed
qed

lemma block_trip_nobar:
  assumes "is_block lines i"
  shows "124 \<notin> set (startDate (block_trip env mm y lines (k, i)))"
    and "124 \<notin> set (endDate (block_trip env mm y lines (k, i)))"
proof -
  from assms have "dateMatch (lines ! i) \<noteq> None" by (simp add: is_block_def)
  note m = date_line_mmdd [OF this]
  show "124 \<notin> set (startDate (block_trip env mm y lines (k, i)))"
    using normalizeDateRange_mmdd_nobar(1) [OF m] by (simp add: block_trip_def Let_def)
  show "124 \<notin> set (endDate (block_trip env mm y lines (k, i)))"
    using normalizeDateRange_mmdd_nobar(2) [OF m] by (simp add: block_trip_def Let_def)
qed

lemma parseTripText_eq:
  "randomUUID env \<noteq> None \<Longrightarrow>
   parseTripText env text ms =
     Inr \<lparr>trips = first_occurrences trip_key (pushed_trips env text ms),
          unknownNames =
            foldl (block_unknown (memberMap_of ms) (text_lines text)) []
              (block_starts (text_lines text) 0),
          ambiguousTrips =
            map (ambiguous_entry (memberMap_of ms))
              (filter (is_ambiguous (memberMap_of ms))
                 (first_occurrences trip_key (pushed_trips env text ms)))\<rparr>"
  by (simp add: parseTripText_def Let_def build_memberMap_eq scan_loop_eq bind_result_def dedup_eq
      pushed_trips_def)

lemma parseTripText_nouuid:
  "randomUUID env = None \<Longrightarrow>
   parseTripText env text ms =
     (if block_starts (text_lines text) 0 = []
      then Inr \<lparr>trips = [], unknownNames = [], ambiguousTrips = []\<rparr>
      else Inl TypeError)"
  by (simp add: parseTripText_def Let_def build_memberMap_eq scan_loop_nouuid bind_result_def
      dedup_eq first_occurrences_def)

lemma pushed_trips_scan:
  "scan_loop env (memberMap_of ms) (find_base_year env (text_lines text)) (text_lines text) 0
     \<lparr>pushed = [], unknown = []\<rparr> = Inr st \<Longrightarrow> pushed st = pushed_trips env text ms"
  by (cases "randomUUID env = None")
    (auto simp: scan_loop_eq scan_loop_nouuid pushed_trips_def Let_def split: if_splits)

lemma pushed_trips_nth:
  assumes "k < length (block_starts (text_lines text) 0)"
  shows "pushed_trips env text ms ! k =
           block_trip env (memberMap_of ms) (find_base_year env (text_lines text))
             (text_lines text) (k, block_starts (text_lines text) 0 ! k)"
  using assms by (simp add: pushed_trips_def Let_def nth_enumerate_eq)

lemma pushed_trips_length:
  "length (pushed_trips env text ms) = length (block_starts (text_lines text) 0)"
  by (simp add: pushed_trips_def Let_def)

lemma pushed_trips_elem:
  assumes "t \<in> set (pushed_trips env text ms)"
  shows "\<exists>k i. i \<in> set (block_starts (text_lines text) 0) \<and>
           t = block_trip env (memberMap_of ms) (find_base_year env (text_lines text))
                 (text_lines text) (k, i)"
proof -
  from assms obtain k where k: "k < length (pushed_trips env text ms)"
    and t: "t = pushed_trips env text ms ! k"
    by (auto simp: in_set_conv_nth)
  from k have k': "k < length (block_starts (text_lines text) 0)"
    by (simp add: pushed_trips_length)
  then have "block_starts (text_lines text) 0 ! k \<in> set (block_starts (text_lines text) 0)"
    by simp
  with t pushed_trips_nth [OF k'] show ?thesis by blast
qed

lemma pushed_trips_key_triple:
  assumes "t \<in> set (pushed_trips env text ms)" and "t' \<in> set (pushed_trips env text ms)"
  shows "(trip_key t = trip_key t') = (trip_triple t = trip_triple t')"
proof
  assume e: "trip_key t = trip_key t'"
  from pushed_trips_elem [OF assms(1)] obtain k i where
    i: "i \<in> set (block_starts (text_lines text) 0)" and
    t: "t = block_trip env (memberMap_of ms) (find_base_year env (text_lines text))
                 (text_lines text) (k, i)" by blast
  from pushed_trips_elem [OF assms(2)] obtain k' i' where
    i': "i' \<in> set (block_starts (text_lines text) 0)" and
    t': "t' = block_trip env (memberMap_of ms) (find_base_year env (text_lines text))
                 (text_lines text) (k', i')" by blast
  from i have b: "is_block (text_lines text) i" using block_starts_props by blast
  from i' have b': "is_block (text_lines text) i'" using block_starts_props by blast
  show "trip_triple t = trip_triple t'"
    using e unfolding t t'
    by (rule trip_key_inj) (rule block_trip_nobar [OF b] block_trip_nobar [OF b'])+
next
  assume "trip_triple t = trip_triple t'"
  then show "trip_key t = trip_key t'" by (simp add: trip_triple_def trip_key_def)
qed

lemma first_occurrences_pushed:
  "first_occurrences trip_key (pushed_trips env text ms) =
   first_occurrences trip_triple (pushed_trips env text ms)"
  by (rule first_occurrences_cong) (rule pushed_trips_key_triple)

lemma is_block_text:
  "is_block (text_lines text) i \<longleftrightarrow>
     i + 2 < length (text_lines text) \<and> dateMatch (text_lines text ! i) \<noteq> None \<and>
     isName (text_lines text ! (i + 1))"
proof (cases "i + 2 < length (text_lines text)")
  case True
  then have "i + 1 < length (text_lines text)" by simp
  then have "trim (text_lines text ! (i + 1)) = text_lines text ! (i + 1)"
    by (rule text_lines_nth)
  then show ?thesis by (simp add: is_block_def)
next
  case False
  then show ?thesis by (simp add: is_block_def)
qed

lemma block_trip_fields:
  "name (block_trip env mm y lines (k, i)) = trim (lines ! (i + 1))"
  "purpose (block_trip env mm y lines (k, i)) = trim (lines ! (i + 2))"
  "startDate (block_trip env mm y lines (k, i)) =
     fst (normalizeDateRange (start_str (lines ! i)) (end_str (lines ! i)) y)"
  "endDate (block_trip env mm y lines (k, i)) =
     snd (normalizeDateRange (start_str (lines ! i)) (end_str (lines ! i)) y)"
  "knoxId (block_trip env mm y lines (k, i)) = block_knoxId (mm (trim (lines ! (i + 1))))"
  "category (block_trip env mm y lines (k, i)) = classifyPurpose (trim (lines ! (i + 2)))"
  "trip_id (block_trip env mm y lines (k, i)) = uuid_of env k"
  by (simp_all add: block_trip_def Let_def)

lemma block_trip_text:
  assumes "is_block (text_lines text) i"
  shows "name (block_trip env mm y (text_lines text) (k, i)) = text_lines text ! (i + 1)"
    and "purpose (block_trip env mm y (text_lines text) (k, i)) = text_lines text ! (i + 2)"
proof -
  from assms have "i + 1 < length (text_lines text)" "i + 2 < length (text_lines text)"
    by (simp_all add: is_block_def)
  then show "name (block_trip env mm y (text_lines text) (k, i)) = text_lines text ! (i + 1)"
    and "purpose (block_trip env mm y (text_lines text) (k, i)) = text_lines text ! (i + 2)"
    by (simp_all add: block_trip_fields text_lines_nth)
qed

lemma unknown_foldl_set:
  "set (foldl (block_unknown mm lines) u js) =
     set u \<union> {trim (lines ! (j + 1)) | j. j \<in> set js \<and> mm (trim (lines ! (j + 1))) = None}"
proof (induction js arbitrary: u)
  case Nil
  show ?case by simp
next
  case (Cons j js)
  show ?case
    by (simp add: Cons.IH) (auto simp: block_unknown_def set_add_def)
qed

lemma unknown_foldl_distinct:
  "distinct u \<Longrightarrow> distinct (foldl (block_unknown mm lines) u js)"
proof (induction js arbitrary: u)
  case Nil
  then show ?case by simp
next
  case (Cons j js)
  from Cons.prems have "distinct (block_unknown mm lines u j)"
    by (simp add: block_unknown_def set_add_def)
  then show ?case by (simp add: Cons.IH)
qed

lemma parse_result_fields:
  "parseTripText env text ms = Inr r \<Longrightarrow>
     trips r = first_occurrences trip_key (pushed_trips env text ms) \<and>
     unknownNames r =
       foldl (block_unknown (memberMap_of ms) (text_lines text)) []
         (block_starts (text_lines text) 0) \<and>
     ambiguousTrips r =
       map (ambiguous_entry (memberMap_of ms))
         (filter (is_ambiguous (memberMap_of ms))
            (first_occurrences trip_key (pushed_trips env text ms)))"
proof (cases "randomUUID env = None")
  case False
  assume "parseTripText env text ms = Inr r"
  with False show ?thesis by (auto simp: parseTripText_eq)
next
  case True
  assume "parseTripText env text ms = Inr r"
  with True have "block_starts (text_lines text) 0 = []"
    and "r = \<lparr>trips = [], unknownNames = [], ambiguousTrips = []\<rparr>"
    by (auto simp: parseTripText_nouuid split: if_splits)
  then show ?thesis by (simp add: pushed_trips_def Let_def first_occurrences_def)
qed

lemma parse_total: "randomUUID env \<noteq> None \<Longrightarrow> \<exists>r. parseTripText env text ms = Inr r"
  by (simp add: parseTripText_eq)

lemma trips_from_blocks:
  assumes "parseTripText env text ms = Inr r" and "t \<in> set (trips r)"
  shows "\<exists>k i. i \<in> set (block_starts (text_lines text) 0) \<and>
           t = block_trip env (memberMap_of ms) (find_base_year env (text_lines text))
                 (text_lines text) (k, i)"
proof -
  from assms have "t \<in> set (pushed_trips env text ms)"
    using first_occurrences_subset parse_result_fields by fastforce
  then show ?thesis by (rule pushed_trips_elem)
qed

section \<open>The sample run, evaluated\<close>

lemmas parse_eval = parseTripText_def text_lines_def build_memberMap_def memberMap_add_def
  memberMap_loop.simps
  scan_line_def call_randomUUID_def bind_result_def trim_of_def dateMatch_def mmdd_def isName_def match_knoxId_def
  set_add_def dedup_def dedup_step_def trip_key_def year_pattern_def classifyPurpose_def
  word_allday_def word_halfday_def kw_yeoncha_def kw_hyuga_def kw_gyoyuk_def
  kw_hyeopryeoksa_def kw_geomjin_def location_overseas_def find_base_year.simps

lemma sample_lines:
  "text_lines sample_text =
     [ascii ''2026-02-01 ~ 2026-02-07'', ascii ''12-29 ~ 01-03'', ascii ''Lee'', kw_gyoyuk,
      ascii ''01-05'', ascii ''Kim'', ascii ''trip'', ascii ''01-05'', ascii ''Kim'',
      ascii ''again'', ascii ''01-06'', word_allday, ascii ''01-07'', ascii ''Park'',
      ascii ''visit'']"
  by (simp add: sample_text_def text_lines_def ascii_def trim_def isWhiteSpace_def
      kw_gyoyuk_def word_allday_def)

lemma sample_parse:
  "parseTripText sample_env sample_text sample_roster =
     Inr \<lparr>trips =
            [\<lparr>trip_id = ascii ''u0'', knoxId = None, name = ascii ''Lee'',
              startDate = ascii ''2025-12-29'', endDate = ascii ''2026-01-03'',
              location = location_overseas, purpose = kw_gyoyuk, category = Education,
              status = ascii ''planned'', createdAt = ascii ''2030-01-01T00:00:00.000Z'',
              updatedAt = ascii ''2030-01-01T00:00:00.000Z''\<rparr>,
             \<lparr>trip_id = ascii ''u1'', knoxId = Some (ascii ''k1''), name = ascii ''Kim'',
              startDate = ascii ''2026-01-05'', endDate = ascii ''2026-01-05'',
              location = location_overseas, purpose = ascii ''trip'', category = Trip,
              status = ascii ''planned'', createdAt = ascii ''2030-01-01T00:00:00.000Z'',
              updatedAt = ascii ''2030-01-01T00:00:00.000Z''\<rparr>,
             \<lparr>trip_id = ascii ''u3'', knoxId = None, name = ascii ''Park'',
              startDate = ascii ''2026-01-07'', endDate = ascii ''2026-01-07'',
              location = location_overseas, purpose = ascii ''visit'', category = Trip,
              status = ascii ''planned'', createdAt = ascii ''2030-01-01T00:00:00.000Z'',
              updatedAt = ascii ''2030-01-01T00:00:00.000Z''\<rparr>],
          unknownNames = [ascii ''Park''],
          ambiguousTrips =
            [\<lparr>trip =
               \<lparr>trip_id = ascii ''u0'', knoxId = None, name = ascii ''Lee'',
                startDate = ascii ''2025-12-29'', endDate = ascii ''2026-01-03'',
                location = location_overseas, purpose = kw_gyoyuk, category = Education,
                status = ascii ''planned'', createdAt = ascii ''2030-01-01T00:00:00.000Z'',
                updatedAt = ascii ''2030-01-01T00:00:00.000Z''\<rparr>,
              candidates =
                [\<lparr>member_name = ascii ''Lee'', member_knoxId = Some (ascii ''l1'')\<rparr>,
                 \<lparr>member_name = ascii '' Lee'', member_knoxId = Some (ascii ''l2'')\<rparr>]\<rparr>]\<rparr>"
  by (simp add: sample_env_def sample_text_def sample_roster_def parse_eval date_eval
      scan_loop.simps)

lemma sample_base_year: "find_base_year sample_env (text_lines sample_text) = Some 2026"
  by (simp add: sample_lines year_pattern_def isDigit_def ascii_def parseInt_def
      isWhiteSpace_def nat_of_digits_def Let_def)

lemmas block_eval = is_block_def dateMatch_def mmdd_def isName_def isDigit_def isWhiteSpace_def
  trim_def ascii_def word_allday_def word_halfday_def kw_gyoyuk_def

lemma sample_blocks: "block_starts (text_lines sample_text) 0 = [1, 4, 7, 12]"
  by (simp add: sample_lines block_starts.simps block_eval)

lemma nested_lines:
  "text_lines nested_text =
     [ascii ''01-01'', ascii ''Kim'', ascii ''01-02'', ascii ''Lee'', ascii ''visit'']"
  by (simp add: nested_text_def text_lines_def ascii_def trim_def isWhiteSpace_def)

lemma sample_triples:
  "map (block_triple sample_env (text_lines sample_text)) [1, 4, 7, 12] =
     [(ascii ''Lee'', ascii ''2025-12-29'', ascii ''2026-01-03''),
      (ascii ''Kim'', ascii ''2026-01-05'', ascii ''2026-01-05''),
      (ascii ''Kim'', ascii ''2026-01-05'', ascii ''2026-01-05''),
      (ascii ''Park'', ascii ''2026-01-07'', ascii ''2026-01-07'')]"
  unfolding block_triple_def sample_base_year
  by (simp add: sample_lines start_str_def end_str_def dateMatch_def mmdd_def date_eval)

lemma sample_said:
  "map (block_said sample_env (text_lines sample_text)) [1, 4, 7, 12] =
     [((ascii ''Lee'', ascii ''2025-12-29'', ascii ''2026-01-03''), kw_gyoyuk),
      ((ascii ''Kim'', ascii ''2026-01-05'', ascii ''2026-01-05''), ascii ''trip''),
      ((ascii ''Kim'', ascii ''2026-01-05'', ascii ''2026-01-05''), ascii ''again''),
      ((ascii ''Park'', ascii ''2026-01-07'', ascii ''2026-01-07''), ascii ''visit'')]"
  using sample_triples by (simp add: block_said_def sample_lines)

lemma sample_kept:
  "filter (\<lambda>i. \<forall>j\<in>set [1, 4, 7, 12]. j < i \<longrightarrow>
            block_triple sample_env (text_lines sample_text) j \<noteq>
            block_triple sample_env (text_lines sample_text) i) [1, 4, 7, 12] = [1, 4, 12]"
  using sample_triples by (simp add: ascii_def)

lemma twice_lines:
  "text_lines twice_text =
     [ascii ''01-05'', ascii ''Kim'', ascii ''first'', ascii ''01-05'', ascii ''Kim'',
      ascii ''second'']"
  by (simp add: twice_text_def text_lines_def ascii_def trim_def isWhiteSpace_def)

lemma twice_blocks: "block_starts (text_lines twice_text) 0 = [0, 3]"
  by (simp add: twice_lines block_starts.simps block_eval)

lemma twice_base_year: "find_base_year sample_env (text_lines twice_text) = Some 2030"
  by (simp add: twice_lines year_pattern_def isDigit_def ascii_def sample_env_def)

lemma twice_triples:
  "map (block_triple sample_env (text_lines twice_text)) [0, 3] =
     [(ascii ''Kim'', ascii ''2030-01-05'', ascii ''2030-01-05''),
      (ascii ''Kim'', ascii ''2030-01-05'', ascii ''2030-01-05'')]"
  unfolding block_triple_def twice_base_year
  by (simp add: twice_lines start_str_def end_str_def dateMatch_def mmdd_def date_eval)

lemma twice_kept:
  "map (block_said sample_env (text_lines twice_text))
     (filter (\<lambda>i. \<forall>j\<in>set [0, 3]. j < i \<longrightarrow>
            block_triple sample_env (text_lines twice_text) j \<noteq>
            block_triple sample_env (text_lines twice_text) i) [0, 3]) =
   [((ascii ''Kim'', ascii ''2030-01-05'', ascii ''2030-01-05''), ascii ''first'')]"
  using twice_triples by (simp add: block_said_def twice_lines)

lemma distinct_map_filter_one:
  assumes "distinct (map f xs)" and "x \<in> set xs"
  shows "length (filter (\<lambda>y. f y = f x) xs) = 1"
  using assms
proof (induction xs)
  case Nil
  then show ?case by simp
next
  case (Cons a xs)
  show ?case
  proof (cases "f a = f x")
    case True
    with Cons.prems have "\<forall>y\<in>set xs. f y \<noteq> f x" by (auto simp: image_iff)
    then have "filter (\<lambda>y. f y = f x) xs = []" by (simp add: filter_empty_conv)
    with True show ?thesis by simp
  next
    case False
    with Cons.prems have "x \<in> set xs" by auto
    with Cons False show ?thesis by simp
  qed
qed

lemma dateMatch_strs:
  assumes "dateMatch line = Some (g1, g2)"
  shows "start_str line = g1" and "end_str line = (case g2 of None \<Rightarrow> g1 | Some e \<Rightarrow> e)"
proof -
  from dateMatch_start [OF assms] show "start_str line = g1" by simp
  with assms show "end_str line = (case g2 of None \<Rightarrow> g1 | Some e \<Rightarrow> e)"
    by (simp add: end_str_def start_str_def split: option.splits)
qed

section \<open>Totality of the parser\<close>

text \<open>
  Claim C4, as amended. In an environment that provides \<^verbatim>\<open>crypto.randomUUID\<close>,
  \<^verbatim>\<open>parseTripText\<close> is total and best-effort: for every text and every roster it
  returns a result, never an error. In every environment, whenever it returns, every
  returned trip stems from a date line that two more lines follow, the first of them
  passing the name check; its name and purpose are those two lines. Lines of any other
  kind contribute nothing: when no date line is followed by a plausible name line, the
  parser returns three empty lists, in every environment.
\<close>

theorem parseTripText_total:
  "(randomUUID env \<noteq> None \<longrightarrow> (\<exists>r. parseTripText env text existingMembers = Inr r)) \<and>
   (\<forall>r. parseTripText env text existingMembers = Inr r \<longrightarrow>
      (\<forall>t\<in>set (trips r). \<exists>i.
         i + 2 < length (text_lines text) \<and> dateMatch (text_lines text ! i) \<noteq> None \<and>
         isName (text_lines text ! (i + 1)) \<and>
         name t = text_lines text ! (i + 1) \<and> purpose t = text_lines text ! (i + 2))) \<and>
   ((\<forall>i. i + 2 < length (text_lines text) \<longrightarrow> dateMatch (text_lines text ! i) \<noteq> None \<longrightarrow>
         \<not> isName (text_lines text ! (i + 1))) \<longrightarrow>
    parseTripText env text existingMembers =
      Inr \<lparr>trips = [], unknownNames = [], ambiguousTrips = []\<rparr>)"
proof -
  let ?lines = "text_lines text"
  have t: "\<exists>r. parseTripText env text existingMembers = Inr r" if "randomUUID env \<noteq> None"
    using that by (rule parse_total)
  have a: "\<exists>i. i + 2 < length ?lines \<and> dateMatch (?lines ! i) \<noteq> None \<and>
         isName (?lines ! (i + 1)) \<and>
         name t = ?lines ! (i + 1) \<and> purpose t = ?lines ! (i + 2)"
    if r: "parseTripText env text existingMembers = Inr r" and "t \<in> set (trips r)" for r t
  proof -
    from trips_from_blocks [OF that] obtain k i where
      i: "i \<in> set (block_starts ?lines 0)" and
      t: "t = block_trip env (memberMap_of existingMembers) (find_base_year env ?lines)
                 ?lines (k, i)" by blast
    from i have b: "is_block ?lines i" using block_starts_props by blast
    from b block_trip_text [OF b] t show ?thesis
      unfolding is_block_text by blast
  qed
  have b: "parseTripText env text existingMembers =
             Inr \<lparr>trips = [], unknownNames = [], ambiguousTrips = []\<rparr>"
    if n: "\<forall>i. i + 2 < length ?lines \<longrightarrow> dateMatch (?lines ! i) \<noteq> None \<longrightarrow>
           \<not> isName (?lines ! (i + 1))"
  proof -
    have e: "block_starts ?lines 0 = []"
    proof (rule ccontr)
      assume "block_starts ?lines 0 \<noteq> []"
      then obtain i where "i \<in> set (block_starts ?lines 0)" by (cases "block_starts ?lines 0") auto
      then have "is_block ?lines i" using block_starts_props by blast
      with n show False unfolding is_block_text by blast
    qed
    show ?thesis
    proof (cases "randomUUID env = None")
      case True
      with e show ?thesis by (simp add: parseTripText_nouuid)
    next
      case False
      with e show ?thesis
        by (simp add: parseTripText_eq pushed_trips_def Let_def enumerate_simps
            first_occurrences_Nil)
    qed
  qed
  from t a b show ?thesis by blast
qed

theorem parseTripText_total_witness:
  "(\<exists>r. parseTripText sample_env sample_text sample_roster = Inr r \<and>
        map name (trips r) = [ascii ''Lee'', ascii ''Kim'', ascii ''Park'']) \<and>
   parseTripText sample_env (ascii ''hello'' @ [10] @ ascii ''01-06'' @ [10] @ word_allday @
            [10] @ ascii ''x'') sample_roster =
     Inr \<lparr>trips = [], unknownNames = [], ambiguousTrips = []\<rparr> \<and>
   parseTripText insecure_env (ascii ''hello'' @ [10] @ ascii ''01-06'' @ [10] @ word_allday @
            [10] @ ascii ''x'') sample_roster =
     Inr \<lparr>trips = [], unknownNames = [], ambiguousTrips = []\<rparr>"
proof -
  let ?text = "ascii ''hello'' @ [10] @ ascii ''01-06'' @ [10] @ word_allday @ [10] @ ascii ''x''"
  have l: "text_lines ?text = [ascii ''hello'', ascii ''01-06'', word_allday, ascii ''x'']"
    by (simp add: text_lines_def ascii_def trim_def isWhiteSpace_def word_allday_def)
  have n: "\<forall>i. i + 2 < length (text_lines ?text) \<longrightarrow> dateMatch (text_lines ?text ! i) \<noteq> None \<longrightarrow>
           \<not> isName (text_lines ?text ! (i + 1))"
  proof (intro allI impI)
    fix i
    assume "i + 2 < length (text_lines ?text)" and d: "dateMatch (text_lines ?text ! i) \<noteq> None"
    then have "i = 0 \<or> i = 1" unfolding l by auto
    then show "\<not> isName (text_lines ?text ! (i + 1))"
    proof
      assume "i = 0"
      with d show ?thesis unfolding l by (simp add: dateMatch_def mmdd_def isDigit_def ascii_def)
    next
      assume "i = 1"
      then show ?thesis unfolding l by (simp add: isName_def)
    qed
  qed
  have u: "randomUUID sample_env \<noteq> None" by (simp add: sample_env_def)
  from parseTripText_total [of sample_env sample_text sample_roster] u
  have 1: "\<exists>r. parseTripText sample_env sample_text sample_roster = Inr r" by blast
  then have 1: "\<exists>r. parseTripText sample_env sample_text sample_roster = Inr r \<and>
        map name (trips r) = [ascii ''Lee'', ascii ''Kim'', ascii ''Park'']"
    by (simp add: sample_parse)
  from parseTripText_total [of sample_env ?text sample_roster] n
  have 2: "parseTripText sample_env ?text sample_roster =
             Inr \<lparr>trips = [], unknownNames = [], ambiguousTrips = []\<rparr>"
    by blast
  from parseTripText_total [of insecure_env ?text sample_roster] n
  have 3: "parseTripText insecure_env ?text sample_roster =
             Inr \<lparr>trips = [], unknownNames = [], ambiguousTrips = []\<rparr>"
    by blast
  from 1 2 3 show ?thesis by blast
qed

text \<open>
  The claim as it stands, for every text and roster with nothing said of the
  environment, fails on a page where \<^verbatim>\<open>crypto.randomUUID\<close> is absent: the first
  block of the text makes the parser throw.
\<close>

theorem parseTripText_total_counterexample:
  "parseTripText insecure_env nested_text sample_roster = Inl TypeError"
proof -
  have "block_starts (text_lines nested_text) 0 = [0]"
    by (simp add: nested_lines block_starts.simps block_eval)
  then show ?thesis
    by (simp add: parseTripText_nouuid insecure_env_def)
qed

section \<open>Names resolved against the roster\<close>

text \<open>
  Claim C3. For every text and roster, in every result that the parser returns the
  unknown names are listed once each, and for every returned trip, with the candidates
  being the roster members whose trimmed name equals the trip's name: if there is
  exactly one candidate, the trip's Knox id is that member's Knox id; if there are two
  or more, the Knox id is left undefined and the trip is in \<^verbatim>\<open>ambiguousTrips\<close>
  together with all the candidates; if there is none, the Knox id is undefined and the
  name is in \<^verbatim>\<open>unknownNames\<close>. And the parser does return a result, for every text
  and roster, wherever \<^verbatim>\<open>crypto.randomUUID\<close> is present.
\<close>

theorem parseTripText_roster:
  "(randomUUID env \<noteq> None \<longrightarrow> (\<exists>r. parseTripText env text existingMembers = Inr r)) \<and>
   (\<forall>r. parseTripText env text existingMembers = Inr r \<longrightarrow>
     distinct (unknownNames r) \<and>
     (\<forall>t\<in>set (trips r).
        (\<forall>m. filter (\<lambda>m. trim (member_name m) = name t) existingMembers = [m] \<longrightarrow>
             knoxId t = member_knoxId m) \<and>
        (2 \<le> length (filter (\<lambda>m. trim (member_name m) = name t) existingMembers) \<longrightarrow>
             knoxId t = None \<and>
             \<lparr>trip = t, candidates = filter (\<lambda>m. trim (member_name m) = name t) existingMembers\<rparr>
               \<in> set (ambiguousTrips r)) \<and>
        (filter (\<lambda>m. trim (member_name m) = name t) existingMembers = [] \<longrightarrow>
             knoxId t = None \<and> name t \<in> set (unknownNames r))))"
proof -
  have ex: "\<exists>r. parseTripText env text existingMembers = Inr r" if "randomUUID env \<noteq> None"
    using that by (rule parse_total)
  have q: "distinct (unknownNames r) \<and>
     (\<forall>t\<in>set (trips r).
        (\<forall>m. filter (\<lambda>m. trim (member_name m) = name t) existingMembers = [m] \<longrightarrow>
             knoxId t = member_knoxId m) \<and>
        (2 \<le> length (filter (\<lambda>m. trim (member_name m) = name t) existingMembers) \<longrightarrow>
             knoxId t = None \<and>
             \<lparr>trip = t, candidates = filter (\<lambda>m. trim (member_name m) = name t) existingMembers\<rparr>
               \<in> set (ambiguousTrips r)) \<and>
        (filter (\<lambda>m. trim (member_name m) = name t) existingMembers = [] \<longrightarrow>
             knoxId t = None \<and> name t \<in> set (unknownNames r)))"
    if r: "parseTripText env text existingMembers = Inr r" for r
  proof -
  note f = parse_result_fields [OF r]
  let ?mm = "memberMap_of existingMembers"
  let ?lines = "text_lines text"
  have d: "distinct (unknownNames r)"
    using f by (simp add: unknown_foldl_distinct)
  have p: "(\<forall>m. filter (\<lambda>m. trim (member_name m) = name t) existingMembers = [m] \<longrightarrow>
             knoxId t = member_knoxId m) \<and>
        (2 \<le> length (filter (\<lambda>m. trim (member_name m) = name t) existingMembers) \<longrightarrow>
             knoxId t = None \<and>
             \<lparr>trip = t, candidates = filter (\<lambda>m. trim (member_name m) = name t) existingMembers\<rparr>
               \<in> set (ambiguousTrips r)) \<and>
        (filter (\<lambda>m. trim (member_name m) = name t) existingMembers = [] \<longrightarrow>
             knoxId t = None \<and> name t \<in> set (unknownNames r))"
    if t: "t \<in> set (trips r)" for t
  proof -
    let ?cs = "filter (\<lambda>m. trim (member_name m) = name t) existingMembers"
    from trips_from_blocks [OF r t] obtain k i where
      i: "i \<in> set (block_starts ?lines 0)" and
      tb: "t = block_trip env ?mm (find_base_year env ?lines) ?lines (k, i)" by blast
    have nm: "name t = trim (?lines ! (i + 1))" by (simp add: tb block_trip_fields)
    have kid: "knoxId t = block_knoxId (?mm (name t))" by (simp add: tb block_trip_fields)
    have mm: "?mm (name t) = (if ?cs = [] then None else Some ?cs)"
      by (simp add: memberMap_of_def)
    have one: "knoxId t = member_knoxId m" if "?cs = [m]" for m
      using kid mm that by (simp add: block_knoxId_def)
    have none: "knoxId t = None \<and> name t \<in> set (unknownNames r)" if e: "?cs = []"
    proof -
      from e mm have n: "?mm (name t) = None" by simp
      with kid have "knoxId t = None" by (simp add: block_knoxId_def)
      moreover have "name t \<in> set (unknownNames r)"
        using f i n nm by (auto simp: unknown_foldl_set)
      ultimately show ?thesis ..
    qed
    have many: "knoxId t = None \<and> \<lparr>trip = t, candidates = ?cs\<rparr> \<in> set (ambiguousTrips r)"
      if l: "2 \<le> length ?cs"
    proof -
      from l have ne: "?cs \<noteq> []" by auto
      with mm have s: "?mm (name t) = Some ?cs" by simp
      from l obtain a b rest where "?cs = a # b # rest"
        by (cases ?cs; cases "tl ?cs") auto
      with kid s have kn: "knoxId t = None" by (simp add: block_knoxId_def)
      with s l have amb: "is_ambiguous ?mm t" by (simp add: is_ambiguous_def)
      have "ambiguous_entry ?mm t = \<lparr>trip = t, candidates = ?cs\<rparr>"
        using s by (simp add: ambiguous_entry_def)
      moreover have "ambiguous_entry ?mm t \<in> set (ambiguousTrips r)"
        using f t amb by auto
      ultimately show ?thesis using kn by simp
    qed
    from one none many show ?thesis by blast
  qed
  from d p show ?thesis by blast
  qed
  from ex q show ?thesis by blast
qed

theorem parseTripText_roster_witness:
  "\<exists>r. parseTripText sample_env sample_text sample_roster = Inr r \<and>
     map name (trips r) = [ascii ''Lee'', ascii ''Kim'', ascii ''Park''] \<and>
     map knoxId (trips r) = [None, Some (ascii ''k1''), None] \<and>
     unknownNames r = [ascii ''Park''] \<and>
     map (map member_knoxId \<circ> candidates) (ambiguousTrips r) =
       [[Some (ascii ''l1''), Some (ascii ''l2'')]]"
  using parseTripText_roster [of sample_env sample_text sample_roster]
  by (simp add: sample_parse)

section \<open>Deduplication of the returned trips\<close>

lemma pushed_trips_said:
  "map trip_said (pushed_trips env text ms) =
     map (block_said env (text_lines text)) (block_starts (text_lines text) 0)"
proof -
  let ?lines = "text_lines text"
  let ?bs = "block_starts ?lines 0"
  have "trip_said (block_trip env (memberMap_of ms) (find_base_year env ?lines) ?lines (k, i)) =
        block_said env ?lines i" if "i \<in> set ?bs" for k i
  proof -
    from that have "is_block ?lines i" using block_starts_props by blast
    from block_trip_text [OF this] show ?thesis
      by (simp add: trip_said_def block_said_def trip_triple_def block_triple_def Let_def
          block_trip_fields)
  qed
  then have "map trip_said (pushed_trips env text ms) =
             map (\<lambda>ki. block_said env ?lines (snd ki)) (enumerate 0 ?bs)"
    by (auto simp: pushed_trips_def Let_def in_set_enumerate_eq)
  also have "\<dots> = map (block_said env ?lines) (map snd (enumerate 0 ?bs))"
    by (simp only: map_map comp_def)
  also have "\<dots> = map (block_said env ?lines) ?bs"
    by (simp only: map_snd_enumerate)
  finally show ?thesis .
qed

text \<open>
  Claim C8. The returned trips are deduplicated, and the first occurrence in text order
  is the one kept. Let \<open>lines\<close> be the trimmed non-empty lines of the text and \<open>bs\<close> the
  indices of the lines at which the main loop takes a block: \<open>bs\<close> is increasing, and
  a line index is in \<open>bs\<close> exactly when the line is a date line, two more lines follow,
  the first of them passes the name check, and the line is not the purpose line of a
  block taken two lines above. Whenever the parser returns: the loop has pushed one
  trip for each index in \<open>bs\<close>, in this order, with the name, dates and purpose that
  the block says; the returned list consists of the pushed trips whose triple of name,
  start date and end date no earlier pushed trip has; told by the lines, the returned
  trips are, in the order of the text, those of the blocks whose triple no block
  further up in the text has; no two returned trips share their triple; and every entry
  of \<^verbatim>\<open>ambiguousTrips\<close> is about a returned trip. And the parser does return, for every
  text and roster, wherever \<^verbatim>\<open>crypto.randomUUID\<close> is present.
\<close>

theorem parseTripText_dedup:
  assumes "lines = text_lines text" and "bs = block_starts lines 0"
  shows
    "(randomUUID env \<noteq> None \<longrightarrow>
        (\<exists>st r.
           scan_loop env (memberMap_of existingMembers) (find_base_year env lines) lines 0
             \<lparr>pushed = [], unknown = []\<rparr> = Inr st \<and>
           parseTripText env text existingMembers = Inr r)) \<and>
     sorted_wrt (<) bs \<and>
     (\<forall>i. i \<in> set bs \<longleftrightarrow>
          i + 2 < length lines \<and> dateMatch (lines ! i) \<noteq> None \<and> isName (lines ! (i + 1)) \<and>
          \<not> (2 \<le> i \<and> i - 2 \<in> set bs)) \<and>
     (\<forall>st r.
        scan_loop env (memberMap_of existingMembers) (find_base_year env lines) lines 0
          \<lparr>pushed = [], unknown = []\<rparr> = Inr st \<longrightarrow>
        parseTripText env text existingMembers = Inr r \<longrightarrow>
          map trip_said (pushed st) = map (block_said env lines) bs \<and>
          trips r = first_occurrences trip_triple (pushed st) \<and>
          map trip_said (trips r) =
            map (block_said env lines)
              (filter (\<lambda>i. \<forall>j\<in>set bs. j < i \<longrightarrow> block_triple env lines j \<noteq> block_triple env lines i)
                 bs) \<and>
          distinct (map trip_triple (trips r)) \<and>
          (\<forall>a\<in>set (ambiguousTrips r). trip a \<in> set (trips r)))"
proof -
  let ?mm = "memberMap_of existingMembers"
  let ?y = "find_base_year env lines"
  have ex: "\<exists>st r. scan_loop env ?mm ?y lines 0 \<lparr>pushed = [], unknown = []\<rparr> = Inr st \<and>
                  parseTripText env text existingMembers = Inr r"
    if u: "randomUUID env \<noteq> None"
  proof -
    from parse_total [OF u] obtain r where "parseTripText env text existingMembers = Inr r"
      by blast
    moreover have "\<exists>st. scan_loop env ?mm ?y lines 0 \<lparr>pushed = [], unknown = []\<rparr> = Inr st"
      by (simp add: scan_loop_eq [OF u])
    ultimately show ?thesis by blast
  qed
  have so: "sorted_wrt (<) bs" unfolding assms(2) by (rule block_starts_sorted)
  have ch: "i \<in> set bs \<longleftrightarrow>
          i + 2 < length lines \<and> dateMatch (lines ! i) \<noteq> None \<and> isName (lines ! (i + 1)) \<and>
          \<not> (2 \<le> i \<and> i - 2 \<in> set bs)" for i
  proof (cases "is_block lines i")
    case True
    from block_starts_criterion [OF True] True show ?thesis
      unfolding assms(2) unfolding assms(1) is_block_text by blast
  next
    case False
    then have "i \<notin> set bs" unfolding assms(2) using block_starts_props by blast
    with False show ?thesis unfolding assms(1) is_block_text by blast
  qed
  have res: "map trip_said (pushed st) = map (block_said env lines) bs \<and>
          trips r = first_occurrences trip_triple (pushed st) \<and>
          map trip_said (trips r) =
            map (block_said env lines)
              (filter (\<lambda>i. \<forall>j\<in>set bs. j < i \<longrightarrow> block_triple env lines j \<noteq> block_triple env lines i)
                 bs) \<and>
          distinct (map trip_triple (trips r)) \<and>
          (\<forall>a\<in>set (ambiguousTrips r). trip a \<in> set (trips r))"
    if st: "scan_loop env ?mm ?y lines 0 \<lparr>pushed = [], unknown = []\<rparr> = Inr st"
      and r: "parseTripText env text existingMembers = Inr r" for st r
  proof -
    note f = parse_result_fields [OF r]
    have p: "pushed st = pushed_trips env text existingMembers"
      using st unfolding assms(1) by (rule pushed_trips_scan)
    have 0: "map trip_said (pushed st) = map (block_said env lines) bs"
      unfolding p assms(2) assms(1) by (rule pushed_trips_said)
    have 1: "trips r = first_occurrences trip_triple (pushed st)"
      using f by (simp add: p first_occurrences_pushed)
    have 2: "map trip_said (trips r) =
            map (block_said env lines)
              (filter (\<lambda>i. \<forall>j\<in>set bs. j < i \<longrightarrow> block_triple env lines j \<noteq> block_triple env lines i)
                 bs)"
      unfolding 1
      by (rule first_occurrences_by_index [OF so 0])
        (simp_all add: trip_said_def block_said_def)
    have 3: "distinct (map trip_triple (trips r))"
      unfolding 1 by (rule first_occurrences_distinct)
    have 4: "\<forall>a\<in>set (ambiguousTrips r). trip a \<in> set (trips r)"
      using f by (auto simp: ambiguous_entry_def)
    from 0 1 2 3 4 show ?thesis by blast
  qed
  from ex so ch res show ?thesis by blast
qed

theorem parseTripText_dedup_witness:
  "(\<exists>st r.
      scan_loop sample_env (memberMap_of sample_roster) (Some 2026) (text_lines sample_text) 0
        \<lparr>pushed = [], unknown = []\<rparr> = Inr st \<and>
      parseTripText sample_env sample_text sample_roster = Inr r \<and>
      map trip_said (pushed st) =
        [((ascii ''Lee'', ascii ''2025-12-29'', ascii ''2026-01-03''), kw_gyoyuk),
         ((ascii ''Kim'', ascii ''2026-01-05'', ascii ''2026-01-05''), ascii ''trip''),
         ((ascii ''Kim'', ascii ''2026-01-05'', ascii ''2026-01-05''), ascii ''again''),
         ((ascii ''Park'', ascii ''2026-01-07'', ascii ''2026-01-07''), ascii ''visit'')] \<and>
      map trip_said (trips r) =
        [((ascii ''Lee'', ascii ''2025-12-29'', ascii ''2026-01-03''), kw_gyoyuk),
         ((ascii ''Kim'', ascii ''2026-01-05'', ascii ''2026-01-05''), ascii ''trip''),
         ((ascii ''Park'', ascii ''2026-01-07'', ascii ''2026-01-07''), ascii ''visit'')] \<and>
      map (name \<circ> trip) (ambiguousTrips r) = [ascii ''Lee'']) \<and>
   (\<exists>r. parseTripText sample_env twice_text sample_roster = Inr r \<and>
      map trip_said (trips r) =
        [((ascii ''Kim'', ascii ''2030-01-05'', ascii ''2030-01-05''), ascii ''first'')])"
proof -
  have u: "randomUUID sample_env \<noteq> None" by (simp add: sample_env_def)
  note T = parseTripText_dedup [OF refl refl, of sample_env sample_roster sample_text]
  from T u obtain st r where
    st: "scan_loop sample_env (memberMap_of sample_roster)
       (find_base_year sample_env (text_lines sample_text)) (text_lines sample_text) 0
       \<lparr>pushed = [], unknown = []\<rparr> = Inr st" and
    r: "parseTripText sample_env sample_text sample_roster = Inr r" by blast
  from T st r have
    a: "map trip_said (pushed st) =
          map (block_said sample_env (text_lines sample_text))
            (block_starts (text_lines sample_text) 0)" and
    b: "map trip_said (trips r) =
          map (block_said sample_env (text_lines sample_text))
            (filter (\<lambda>i. \<forall>j\<in>set (block_starts (text_lines sample_text) 0). j < i \<longrightarrow>
                      block_triple sample_env (text_lines sample_text) j \<noteq>
                      block_triple sample_env (text_lines sample_text) i)
               (block_starts (text_lines sample_text) 0))"
    by blast+
  have 0: "scan_loop sample_env (memberMap_of sample_roster) (Some 2026)
       (text_lines sample_text) 0 \<lparr>pushed = [], unknown = []\<rparr> = Inr st"
    using st by (simp only: sample_base_year)
  have 1: "map trip_said (pushed st) =
        [((ascii ''Lee'', ascii ''2025-12-29'', ascii ''2026-01-03''), kw_gyoyuk),
         ((ascii ''Kim'', ascii ''2026-01-05'', ascii ''2026-01-05''), ascii ''trip''),
         ((ascii ''Kim'', ascii ''2026-01-05'', ascii ''2026-01-05''), ascii ''again''),
         ((ascii ''Park'', ascii ''2026-01-07'', ascii ''2026-01-07''), ascii ''visit'')]"
    using a unfolding sample_blocks sample_said .
  have 2: "map trip_said (trips r) =
        [((ascii ''Lee'', ascii ''2025-12-29'', ascii ''2026-01-03''), kw_gyoyuk),
         ((ascii ''Kim'', ascii ''2026-01-05'', ascii ''2026-01-05''), ascii ''trip''),
         ((ascii ''Park'', ascii ''2026-01-07'', ascii ''2026-01-07''), ascii ''visit'')]"
    using b sample_said unfolding sample_blocks sample_kept by simp
  from r have r': "r = projr (parseTripText sample_env sample_text sample_roster)" by simp
  have 3: "map (name \<circ> trip) (ambiguousTrips r) = [ascii ''Lee'']"
    unfolding r' sample_parse by simp
  note T' = parseTripText_dedup [OF refl refl, of sample_env sample_roster twice_text]
  from T' u obtain st' r' where
    st': "scan_loop sample_env (memberMap_of sample_roster)
       (find_base_year sample_env (text_lines twice_text)) (text_lines twice_text) 0
       \<lparr>pushed = [], unknown = []\<rparr> = Inr st'" and
    r': "parseTripText sample_env twice_text sample_roster = Inr r'" by blast
  from T' st' r' have
    "map trip_said (trips r') =
          map (block_said sample_env (text_lines twice_text))
            (filter (\<lambda>i. \<forall>j\<in>set (block_starts (text_lines twice_text) 0). j < i \<longrightarrow>
                      block_triple sample_env (text_lines twice_text) j \<noteq>
                      block_triple sample_env (text_lines twice_text) i)
               (block_starts (text_lines twice_text) 0))"
    by blast
  then have 4: "map trip_said (trips r') =
        [((ascii ''Kim'', ascii ''2030-01-05'', ascii ''2030-01-05''), ascii ''first'')]"
    unfolding twice_blocks twice_kept .
  from 0 r 1 2 3 have A: "\<exists>st r.
      scan_loop sample_env (memberMap_of sample_roster) (Some 2026) (text_lines sample_text) 0
        \<lparr>pushed = [], unknown = []\<rparr> = Inr st \<and>
      parseTripText sample_env sample_text sample_roster = Inr r \<and>
      map trip_said (pushed st) =
        [((ascii ''Lee'', ascii ''2025-12-29'', ascii ''2026-01-03''), kw_gyoyuk),
         ((ascii ''Kim'', ascii ''2026-01-05'', ascii ''2026-01-05''), ascii ''trip''),
         ((ascii ''Kim'', ascii ''2026-01-05'', ascii ''2026-01-05''), ascii ''again''),
         ((ascii ''Park'', ascii ''2026-01-07'', ascii ''2026-01-07''), ascii ''visit'')] \<and>
      map trip_said (trips r) =
        [((ascii ''Lee'', ascii ''2025-12-29'', ascii ''2026-01-03''), kw_gyoyuk),
         ((ascii ''Kim'', ascii ''2026-01-05'', ascii ''2026-01-05''), ascii ''trip''),
         ((ascii ''Park'', ascii ''2026-01-07'', ascii ''2026-01-07''), ascii ''visit'')] \<and>
      map (name \<circ> trip) (ambiguousTrips r) = [ascii ''Lee'']"
    by (intro exI conjI)
  from r' 4 have B: "\<exists>r. parseTripText sample_env twice_text sample_roster = Inr r \<and>
      map trip_said (trips r) =
        [((ascii ''Kim'', ascii ''2030-01-05'', ascii ''2030-01-05''), ascii ''first'')]"
    by (intro exI conjI)
  from A B show ?thesis ..
qed

section \<open>One trip for each block\<close>

text \<open>
  Claim C1, as amended. Let \<open>lines\<close> be the trimmed non-empty lines of the pasted text.
  Whenever line \<open>i\<close> matches the date pattern (\<^verbatim>\<open>MM-DD\<close> or
  \<^verbatim>\<open>MM-DD ~ MM-DD\<close>), at least two further lines follow, the next line passes the
  name check (it does not start with a digit and is neither of the two words for "all
  day" and "half day"), and line \<open>i\<close> is not itself the purpose line of a block that
  the main loop takes two lines above, then the main loop pushes one trip for this
  block, with the next line as its name, the line after that as its purpose and the
  normalised date range as its dates. The returned list holds exactly one trip with
  this name and these dates: this trip, or, when an earlier block has the same name and
  dates, the trip of that earlier block (with that block's purpose). The trip gets its
  id from \<^verbatim>\<open>crypto.randomUUID()\<close>, so all this is said of an environment that
  provides this function (the last hypothesis); where it is absent the parser throws at
  the first block.
\<close>

theorem parseTripText_block:
  assumes "lines = text_lines text"
    and "i + 2 < length lines"
    and "dateMatch (lines ! i) = Some (g1, g2)"
    and "isName (lines ! (i + 1))"
    and "\<not> (2 \<le> i \<and> i - 2 \<in> set (block_starts lines 0))"
    and "dates = normalizeDateRange g1 (case g2 of None \<Rightarrow> g1 | Some e \<Rightarrow> e)
                   (find_base_year env lines)"
    and "randomUUID env \<noteq> None"
  shows "\<exists>st r.
           scan_loop env (memberMap_of existingMembers) (find_base_year env lines) lines 0
             \<lparr>pushed = [], unknown = []\<rparr> = Inr st \<and>
           parseTripText env text existingMembers = Inr r \<and>
           (\<exists>t\<in>set (pushed st). name t = lines ! (i + 1) \<and> purpose t = lines ! (i + 2) \<and>
               startDate t = fst dates \<and> endDate t = snd dates) \<and>
           length (filter (\<lambda>t. trip_triple t = (lines ! (i + 1), fst dates, snd dates))
                     (trips r)) = 1 \<and>
           (\<exists>t\<in>set (trips r). trip_triple t = (lines ! (i + 1), fst dates, snd dates) \<and>
               (purpose t = lines ! (i + 2) \<or>
                (\<exists>j<i. j \<in> set (block_starts lines 0) \<and> lines ! (j + 1) = lines ! (i + 1) \<and>
                       purpose t = lines ! (j + 2))))"
proof -
  let ?mm = "memberMap_of existingMembers"
  let ?y = "find_base_year env lines"
  let ?bs = "block_starts lines 0"
  let ?ps = "pushed_trips env text existingMembers"
  obtain r where r: "parseTripText env text existingMembers = Inr r"
    using parse_total [OF assms(7)] by blast
  note f = parse_result_fields [OF r]
  obtain st where st: "scan_loop env ?mm ?y lines 0 \<lparr>pushed = [], unknown = []\<rparr> = Inr st"
    by (simp add: scan_loop_eq [OF assms(7)])
  have p: "pushed st = ?ps"
    using st unfolding assms(1) by (rule pushed_trips_scan)
  have b: "is_block lines i"
    unfolding assms(1) is_block_text using assms(2-4) unfolding assms(1) by simp
  with assms(5) have "i \<in> set ?bs" by (simp add: block_starts_criterion)
  then obtain k where k: "k < length ?bs" and bk: "?bs ! k = i"
    by (auto simp: in_set_conv_nth)
  define t0 where "t0 = block_trip env ?mm ?y lines (k, i)"
  have pk: "?ps ! k = t0"
    using pushed_trips_nth [of k "text" env existingMembers] k bk
    unfolding t0_def assms(1) by simp
  have kl: "k < length ?ps" using k by (simp add: pushed_trips_length assms(1))
  then have t0p: "t0 \<in> set ?ps" using pk by (auto simp: in_set_conv_nth)
  have t0f: "name t0 = lines ! (i + 1)" "purpose t0 = lines ! (i + 2)"
    using block_trip_text [of "text" i env ?mm ?y k] b unfolding t0_def assms(1) by simp_all
  have t0d: "startDate t0 = fst dates" "endDate t0 = snd dates"
    unfolding t0_def assms(6) by (simp_all add: block_trip_fields dateMatch_strs [OF assms(3)])
  have tr0: "trip_triple t0 = (lines ! (i + 1), fst dates, snd dates)"
    by (simp add: trip_triple_def t0f t0d)
  from first_occurrences_leftmost [OF kl, of trip_key] obtain k' where
    k': "k' \<le> k" and in': "?ps ! k' \<in> set (first_occurrences trip_key ?ps)"
    and key': "trip_key (?ps ! k') = trip_key (?ps ! k)" by blast
  define t where "t = ?ps ! k'"
  from k' kl have k'l: "k' < length ?ps" by simp
  then have tp: "t \<in> set ?ps" unfolding t_def by simp
  have tt: "t \<in> set (trips r)" using f in' by (simp add: t_def)
  have tr: "trip_triple t = trip_triple t0"
    using key' pushed_trips_key_triple [OF tp t0p] by (simp add: t_def pk)
  have pur: "purpose t = lines ! (i + 2) \<or>
                (\<exists>j<i. j \<in> set ?bs \<and> lines ! (j + 1) = lines ! (i + 1) \<and>
                       purpose t = lines ! (j + 2))"
  proof (cases "k' = k")
    case True
    then show ?thesis by (simp add: t_def pk t0f)
  next
    case False
    with k' have lt: "k' < k" by simp
    let ?j = "?bs ! k'"
    from lt k have k'b: "k' < length ?bs" by simp
    have ji: "?j < i"
      using sorted_wrt_nth_less [OF block_starts_sorted lt k] bk by simp
    have jm: "?j \<in> set ?bs" using k'b by simp
    then have bj: "is_block lines ?j" using block_starts_props by blast
    have tj: "t = block_trip env ?mm ?y lines (k', ?j)"
      using pushed_trips_nth [of k' "text" env existingMembers] k'b
      unfolding t_def assms(1) by simp
    have "name t = lines ! (?j + 1)" "purpose t = lines ! (?j + 2)"
      using block_trip_text [of "text" ?j env ?mm ?y k'] bj unfolding tj assms(1) by simp_all
    moreover from tr have "name t = name t0" by (simp add: trip_triple_def)
    ultimately show ?thesis using t0f ji jm by auto
  qed
  have d: "distinct (map trip_triple (trips r))"
    using f by (simp add: first_occurrences_pushed first_occurrences_distinct)
  have one: "length (filter (\<lambda>u. trip_triple u = (lines ! (i + 1), fst dates, snd dates))
                     (trips r)) = 1"
    using distinct_map_filter_one [OF d tt] by (simp add: tr tr0)
  have push: "\<exists>u\<in>set (pushed st). name u = lines ! (i + 1) \<and> purpose u = lines ! (i + 2) \<and>
               startDate u = fst dates \<and> endDate u = snd dates"
    using t0p t0f t0d p by auto
  have ret: "\<exists>u\<in>set (trips r). trip_triple u = (lines ! (i + 1), fst dates, snd dates) \<and>
               (purpose u = lines ! (i + 2) \<or>
                (\<exists>j<i. j \<in> set ?bs \<and> lines ! (j + 1) = lines ! (i + 1) \<and>
                       purpose u = lines ! (j + 2)))"
    using tt tr tr0 pur by auto
  from st r push one ret show ?thesis by blast
qed

theorem parseTripText_block_witness:
  "\<exists>st r.
     scan_loop sample_env (memberMap_of sample_roster) (Some 2026) (text_lines sample_text) 0
       \<lparr>pushed = [], unknown = []\<rparr> = Inr st \<and>
     parseTripText sample_env sample_text sample_roster = Inr r \<and>
     (\<exists>t\<in>set (pushed st). name t = ascii ''Kim'' \<and> purpose t = ascii ''again'' \<and>
         startDate t = ascii ''2026-01-05'' \<and> endDate t = ascii ''2026-01-05'') \<and>
     length (filter (\<lambda>t. trip_triple t =
                (ascii ''Kim'', ascii ''2026-01-05'', ascii ''2026-01-05'')) (trips r)) = 1 \<and>
     (\<exists>t\<in>set (trips r).
         trip_triple t = (ascii ''Kim'', ascii ''2026-01-05'', ascii ''2026-01-05'') \<and>
         purpose t = ascii ''trip'')"
proof -
  let ?lines = "text_lines sample_text"
  have h2: "7 + 2 < length ?lines" by (simp add: sample_lines)
  have h3: "dateMatch (?lines ! 7) = Some (ascii ''01-05'', None)"
    by (simp add: sample_lines dateMatch_def mmdd_def isDigit_def ascii_def)
  have h4: "isName (?lines ! (7 + 1))"
    by (simp add: sample_lines isName_def isDigit_def ascii_def word_allday_def word_halfday_def)
  have h5: "\<not> (2 \<le> (7::nat) \<and> 7 - 2 \<in> set (block_starts ?lines 0))"
    by (simp add: sample_blocks)
  have d: "normalizeDateRange (ascii ''01-05'') (case None of None \<Rightarrow> ascii ''01-05'' | Some e \<Rightarrow> e)
             (find_base_year sample_env ?lines) = (ascii ''2026-01-05'', ascii ''2026-01-05'')"
    by (simp add: sample_base_year date_eval)
  let ?d = "normalizeDateRange (ascii ''01-05'') (case None of None \<Rightarrow> ascii ''01-05'' | Some e \<Rightarrow> e)
             (find_base_year sample_env ?lines)"
  have h7: "randomUUID sample_env \<noteq> None" by (simp add: sample_env_def)
  from parseTripText_block [OF refl h2 h3 h4 h5 refl h7, of sample_roster]
  obtain st r where
    1: "scan_loop sample_env (memberMap_of sample_roster) (find_base_year sample_env ?lines)
       ?lines 0 \<lparr>pushed = [], unknown = []\<rparr> = Inr st" and
    2: "parseTripText sample_env sample_text sample_roster = Inr r" and
    3: "\<exists>t\<in>set (pushed st). name t = ?lines ! (7 + 1) \<and> purpose t = ?lines ! (7 + 2) \<and>
         startDate t = fst ?d \<and> endDate t = snd ?d" and
    4: "length (filter (\<lambda>t. trip_triple t = (?lines ! (7 + 1), fst ?d, snd ?d)) (trips r)) = 1"
    by blast
  have 1: "scan_loop sample_env (memberMap_of sample_roster) (Some 2026) ?lines 0
       \<lparr>pushed = [], unknown = []\<rparr> = Inr st"
    using 1 by (simp only: sample_base_year)
  have 3: "\<exists>t\<in>set (pushed st). name t = ascii ''Kim'' \<and> purpose t = ascii ''again'' \<and>
         startDate t = ascii ''2026-01-05'' \<and> endDate t = ascii ''2026-01-05''"
    using 3 unfolding d by (simp add: sample_lines)
  have 4: "length (filter (\<lambda>t. trip_triple t =
                (ascii ''Kim'', ascii ''2026-01-05'', ascii ''2026-01-05'')) (trips r)) = 1"
    using 4 unfolding d by (simp add: sample_lines)
  from 2 have r: "r = projr (parseTripText sample_env sample_text sample_roster)" by simp
  have 5: "\<exists>t\<in>set (trips r).
         trip_triple t = (ascii ''Kim'', ascii ''2026-01-05'', ascii ''2026-01-05'') \<and>
         purpose t = ascii ''trip''"
    unfolding r sample_parse by (simp add: trip_triple_def)
  from 1 2 3 4 5 show ?thesis by blast
qed

text \<open>
  As stated, the claim fails where a date line is the purpose line of the block before
  it. In the text of the five lines 01-01, Kim, 01-02, Lee, visit, the line 01-02
  matches the date pattern, two lines follow it and Lee passes the name check; yet the
  loop takes 01-02 as the purpose of the block of Kim and goes on after it, and the
  parser returns one trip, for Kim, and none for Lee.
\<close>

theorem parseTripText_block_counterexample:
  "text_lines nested_text =
     [ascii ''01-01'', ascii ''Kim'', ascii ''01-02'', ascii ''Lee'', ascii ''visit''] \<and>
   dateMatch (ascii ''01-02'') = Some (ascii ''01-02'', None) \<and>
   isName (ascii ''Lee'') \<and>
   parseTripText sample_env nested_text sample_roster =
     Inr \<lparr>trips =
            [\<lparr>trip_id = ascii ''u0'', knoxId = Some (ascii ''k1''), name = ascii ''Kim'',
              startDate = ascii ''2030-01-01'', endDate = ascii ''2030-01-01'',
              location = location_overseas, purpose = ascii ''01-02'', category = Trip,
              status = ascii ''planned'', createdAt = ascii ''2030-01-01T00:00:00.000Z'',
              updatedAt = ascii ''2030-01-01T00:00:00.000Z''\<rparr>],
          unknownNames = [], ambiguousTrips = []\<rparr>"
proof -
  have p: "parseTripText sample_env nested_text sample_roster =
     Inr \<lparr>trips =
            [\<lparr>trip_id = ascii ''u0'', knoxId = Some (ascii ''k1''), name = ascii ''Kim'',
              startDate = ascii ''2030-01-01'', endDate = ascii ''2030-01-01'',
              location = location_overseas, purpose = ascii ''01-02'', category = Trip,
              status = ascii ''planned'', createdAt = ascii ''2030-01-01T00:00:00.000Z'',
              updatedAt = ascii ''2030-01-01T00:00:00.000Z''\<rparr>],
          unknownNames = [], ambiguousTrips = []\<rparr>"
    by (simp add: sample_env_def nested_text_def sample_roster_def parse_eval date_eval
        scan_loop.simps)
  have l: "dateMatch (ascii ''01-02'') = Some (ascii ''01-02'', None)" "isName (ascii ''Lee'')"
    by (simp_all add: dateMatch_def mmdd_def isDigit_def ascii_def isName_def
        word_allday_def word_halfday_def)
  from nested_lines l p show ?thesis by simp
qed

section \<open>Dates of years below 1000\<close>

text \<open>
  Claim C2 asks that both outputs of \<^verbatim>\<open>normalizeDateRange\<close> be zero-padded
  \<^verbatim>\<open>YYYY-MM-DD\<close> strings, which is what the comment of \<^verbatim>\<open>normalizeDate\<close> promises
  ("Normalizes date strings to ISO format (YYYY-MM-DD)"). The code pads month and day
  and not the year. With the base year 999 the range 12-29 to 02-12 comes out as
  998-12-29 and 999-02-12, where zero-padded strings would be 0998-12-29 and
  0999-02-12; neither output has the shape \<^verbatim>\<open>YYYY-MM-DD\<close>. The parser reaches this
  input: it reads the base year from the first date with a four-digit year in the
  text, here 0999-01-01, and returns the two strings as the dates of the trip. (The
  years themselves are assigned as the claim says, for every base year: see
  \<open>normalizeDateRange_short\<close>.)
\<close>

theorem normalizeDateRange_year_unpadded:
  "normalizeDateRange (ascii ''12-29'') (ascii ''02-12'') (Some 999) =
     (ascii ''998-12-29'', ascii ''999-02-12'') \<and>
   \<not> date_shape (ascii ''998-12-29'') \<and> \<not> date_shape (ascii ''999-02-12'') \<and>
   date_shape (ascii ''0998-12-29'') \<and> date_shape (ascii ''0999-02-12'') \<and>
   find_base_year sample_env (text_lines year999_text) = Some 999 \<and>
   (\<exists>r. parseTripText sample_env year999_text sample_roster = Inr r \<and>
        map name (trips r) = [ascii ''Kim''] \<and>
        map startDate (trips r) = [ascii ''998-12-29''] \<and>
        map endDate (trips r) = [ascii ''999-02-12''])"
proof -
  have 1: "normalizeDateRange (ascii ''12-29'') (ascii ''02-12'') (Some 999) =
     (ascii ''998-12-29'', ascii ''999-02-12'')"
    by (simp add: date_eval)
  have 2: "\<not> date_shape (ascii ''998-12-29'')" "\<not> date_shape (ascii ''999-02-12'')"
    "date_shape (ascii ''0998-12-29'')" "date_shape (ascii ''0999-02-12'')"
    by (simp_all add: date_shape_def ascii_def isDigit_def)
  have l: "text_lines year999_text =
      [ascii ''0999-01-01'', ascii ''12-29 ~ 02-12'', ascii ''Kim'', ascii ''trip'']"
    by (simp add: year999_text_def text_lines_def ascii_def trim_def isWhiteSpace_def)
  have 3: "find_base_year sample_env (text_lines year999_text) = Some 999"
    by (simp add: l year_pattern_def isDigit_def ascii_def parseInt_def
        isWhiteSpace_def nat_of_digits_def Let_def)
  have 4: "parseTripText sample_env year999_text sample_roster =
     Inr \<lparr>trips =
            [\<lparr>trip_id = ascii ''u0'', knoxId = Some (ascii ''k1''), name = ascii ''Kim'',
              startDate = ascii ''998-12-29'', endDate = ascii ''999-02-12'',
              location = location_overseas, purpose = ascii ''trip'', category = Trip,
              status = ascii ''planned'', createdAt = ascii ''2030-01-01T00:00:00.000Z'',
              updatedAt = ascii ''2030-01-01T00:00:00.000Z''\<rparr>],
          unknownNames = [], ambiguousTrips = []\<rparr>"
    by (simp add: sample_env_def year999_text_def sample_roster_def parse_eval date_eval
        scan_loop.simps)
  from 1 2 3 4 show ?thesis by simp
qed

text \<open>
  Month and day are printed as they are read, without a check of their range; so it is
  the shape, and no more, that the outputs have for the other base years.
\<close>

lemma normalizeDateRange_no_range_check:
  "normalizeDateRange (ascii ''13-45'') (ascii ''99-99'') (Some 2026) =
     (ascii ''2026-13-45'', ascii ''2026-99-99'')"
  by (simp add: date_eval)

section \<open>Facts about the migration\<close>

lemma migration_key_not_heavy: "IDB_MIGRATION_KEY \<notin> set heavyKeys"
  by (simp add: heavyKeys_def IDB_MIGRATION_KEY_def ascii_def)

lemma migration_key_tracked: "shouldSyncKey IDB_MIGRATION_KEY"
  by (simp add: shouldSyncKey_def IDB_SYNC_KEYS_def)

lemma heavy_tracked: "set heavyKeys \<subseteq> set IDB_SYNC_KEYS"
  by (simp add: heavyKeys_def IDB_SYNC_KEYS_def)

lemma removeItems_localStorage:
  "localStorage (removeItems keys s) k = (if k \<in> set keys then None else localStorage s k)"
proof -
  have "foldl (\<lambda>m k. m(k := None)) m keys k = (if k \<in> set keys then None else m k)" for m :: "jsstring \<rightharpoonup> jsstring"
    by (induction keys arbitrary: m) auto
  then show ?thesis by (simp add: removeItems_def)
qed

lemma removeItems_idb: "idb (removeItems keys s) = idb s"
  by (simp add: removeItems_def)

lemma migrate_key_ok:
  assumes "has_window env" and "idb_available env"
  shows "migrate_key env key s =
           (None, case localStorage s key of
                    None \<Rightarrow> s
                  | Some v \<Rightarrow> s\<lparr>idb := (idb s)(key \<mapsto> stored_value env v)\<rparr>)"
  using assms
  by (simp add: migrate_key_def getStorageItem_def idbSet_def stored_value_def
      split: option.splits)

lemma migrate_keys_ok:
  assumes "has_window env" and "idb_available env"
  shows "migrate_keys env keys s =
           (None, s\<lparr>idb := (\<lambda>k. if k \<in> set keys
                               then (case localStorage s k of
                                       None \<Rightarrow> idb s k
                                     | Some v \<Rightarrow> Some (stored_value env v))
                               else idb s k)\<rparr>)"
proof (induction keys arbitrary: s)
  case Nil
  show ?case by simp
next
  case (Cons key keys)
  let ?s1 = "case localStorage s key of
               None \<Rightarrow> s
             | Some v \<Rightarrow> s\<lparr>idb := (idb s)(key \<mapsto> stored_value env v)\<rparr>"
  have ls: "localStorage ?s1 = localStorage s" by (simp split: option.splits)
  have "migrate_keys env (key # keys) s = migrate_keys env keys ?s1"
    by (simp add: migrate_key_ok [OF assms])
  also have "\<dots> = (None, ?s1\<lparr>idb := (\<lambda>k. if k \<in> set keys
                               then (case localStorage ?s1 k of
                                       None \<Rightarrow> idb ?s1 k
                                     | Some v \<Rightarrow> Some (stored_value env v))
                               else idb ?s1 k)\<rparr>)"
    by (rule Cons.IH)
  also have "?s1\<lparr>idb := (\<lambda>k. if k \<in> set keys
                               then (case localStorage ?s1 k of
                                       None \<Rightarrow> idb ?s1 k
                                     | Some v \<Rightarrow> Some (stored_value env v))
                               else idb ?s1 k)\<rparr> =
      s\<lparr>idb := (\<lambda>k. if k \<in> set (key # keys)
                               then (case localStorage s k of
                                       None \<Rightarrow> idb s k
                                     | Some v \<Rightarrow> Some (stored_value env v))
                               else idb s k)\<rparr>"
    unfolding ls by (rule storage.equality) (auto simp: fun_eq_iff split: option.splits)
  finally show ?case .
qed

lemma migrate_keys_unavailable:
  assumes "has_window env" and "\<not> idb_available env"
  shows "snd (migrate_keys env keys s) = s"
proof (induction keys)
  case Nil
  show ?case by simp
next
  case (Cons key keys)
  have "migrate_key env key s = (None, s) \<or> (\<exists>e. migrate_key env key s = (Some e, s))"
    using assms
    by (auto simp: migrate_key_def getStorageItem_def idbSet_def split: option.splits)
  with Cons show ?case by auto
qed

lemma initialize_done:
  "localStorage s IDB_MIGRATION_KEY = Some (ascii ''2'') \<Longrightarrow> initializeIndexedDBStorage env s = s"
  by (simp add: initializeIndexedDBStorage_def getStorageItem_def)

lemma initialize_fresh:
  assumes "has_window env" and "idb_available env"
    and "localStorage s IDB_MIGRATION_KEY \<noteq> Some (ascii ''2'')"
  shows "initializeIndexedDBStorage env s =
           \<lparr>localStorage = (\<lambda>k. if k \<in> set heavyKeys then None
                                else if k = IDB_MIGRATION_KEY then Some (ascii ''2'')
                                else localStorage s k),
            idb = (\<lambda>k. if k = IDB_MIGRATION_KEY then Some (string_value env (ascii ''2''))
                       else if k \<in> set IDB_SYNC_KEYS
                       then (case localStorage s k of
                               None \<Rightarrow> idb s k
                             | Some v \<Rightarrow> Some (stored_value env v))
                       else idb s k)\<rparr>"
proof -
  let ?s1 = "s\<lparr>idb := (\<lambda>k. if k \<in> set IDB_SYNC_KEYS
                               then (case localStorage s k of
                                       None \<Rightarrow> idb s k
                                     | Some v \<Rightarrow> Some (stored_value env v))
                               else idb s k)\<rparr>"
  let ?s3 = "?s1\<lparr>localStorage := (localStorage s)(IDB_MIGRATION_KEY \<mapsto> ascii ''2''),
                 idb := (idb ?s1)(IDB_MIGRATION_KEY \<mapsto> string_value env (ascii ''2''))\<rparr>"
  have m: "migrate_keys env IDB_SYNC_KEYS s = (None, ?s1)"
    using assms(1,2) by (rule migrate_keys_ok)
  have "initializeIndexedDBStorage env s = removeItems heavyKeys ?s3"
    using assms
    by (simp add: initializeIndexedDBStorage_def getStorageItem_def m setStorageItem_def
        migration_key_tracked idbSet_def Let_def)
  also have "\<dots> = \<lparr>localStorage = (\<lambda>k. if k \<in> set heavyKeys then None
                                else if k = IDB_MIGRATION_KEY then Some (ascii ''2'')
                                else localStorage s k),
            idb = (\<lambda>k. if k = IDB_MIGRATION_KEY then Some (string_value env (ascii ''2''))
                       else if k \<in> set IDB_SYNC_KEYS
                       then (case localStorage s k of
                               None \<Rightarrow> idb s k
                             | Some v \<Rightarrow> Some (stored_value env v))
                       else idb s k)\<rparr>"
    by (rule storage.equality)
       (auto simp: fun_eq_iff removeItems_localStorage removeItems_idb)
  finally show ?thesis .
qed

lemma initialize_cases:
  "initializeIndexedDBStorage env s = s \<or>
   localStorage (initializeIndexedDBStorage env s) IDB_MIGRATION_KEY = Some (ascii ''2'')"
proof (cases "has_window env \<and> localStorage s IDB_MIGRATION_KEY \<noteq> Some (ascii ''2'')")
  case False
  then show ?thesis by (auto simp: initializeIndexedDBStorage_def getStorageItem_def)
next
  case True
  then have w: "has_window env" and n: "localStorage s IDB_MIGRATION_KEY \<noteq> Some (ascii ''2'')"
    by simp_all
  show ?thesis
  proof (cases "idb_available env")
    case True
    from initialize_fresh [OF w True n] show ?thesis
      by (simp add: migration_key_not_heavy)
  next
    case False
    obtain e s1 where m: "migrate_keys env IDB_SYNC_KEYS s = (e, s1)" by force
    with migrate_keys_unavailable [OF w False, of IDB_SYNC_KEYS s] have s1: "s1 = s" by simp
    show ?thesis
    proof (cases e)
      case None
      with m s1 w n False show ?thesis
        by (simp add: initializeIndexedDBStorage_def getStorageItem_def setStorageItem_def
            idbSet_def Let_def)
    next
      case (Some x)
      with m s1 w n show ?thesis
        by (simp add: initializeIndexedDBStorage_def getStorageItem_def)
    qed
  qed
qed

section \<open>The migration runs once\<close>

text \<open>
  Claim C5. The migration from \<^verbatim>\<open>localStorage\<close> to IndexedDB is one-time. When the
  flag key already holds "2", \<^verbatim>\<open>initializeIndexedDBStorage\<close> leaves the storage as
  it is: nothing is copied, nothing removed. When it does not (in a browser whose
  IndexedDB works), the call copies the value of every tracked key present in
  \<^verbatim>\<open>localStorage\<close> into the key-value store (parsed as JSON where it parses, as
  the string otherwise), sets the flag to "2" in both stores and removes the heavy keys
  from \<^verbatim>\<open>localStorage\<close>, changing nothing else. In every case a second call
  changes nothing.
\<close>

theorem initializeIndexedDBStorage_once:
  "(localStorage s IDB_MIGRATION_KEY = Some (ascii ''2'') \<longrightarrow>
      initializeIndexedDBStorage env s = s) \<and>
   (has_window env \<and> idb_available env \<and> localStorage s IDB_MIGRATION_KEY \<noteq> Some (ascii ''2'') \<longrightarrow>
      (\<forall>k. localStorage (initializeIndexedDBStorage env s) k =
              (if k \<in> set heavyKeys then None
               else if k = IDB_MIGRATION_KEY then Some (ascii ''2'')
               else localStorage s k)) \<and>
      (\<forall>k. idb (initializeIndexedDBStorage env s) k =
              (if k = IDB_MIGRATION_KEY then Some (string_value env (ascii ''2''))
               else if k \<in> set IDB_SYNC_KEYS
               then (case localStorage s k of
                       None \<Rightarrow> idb s k
                     | Some v \<Rightarrow> Some (stored_value env v))
               else idb s k))) \<and>
   initializeIndexedDBStorage env (initializeIndexedDBStorage env s) =
     initializeIndexedDBStorage env s"
proof (intro conjI impI)
  assume "localStorage s IDB_MIGRATION_KEY = Some (ascii ''2'')"
  then show "initializeIndexedDBStorage env s = s" by (rule initialize_done)
next
  assume a: "has_window env \<and> idb_available env \<and>
    localStorage s IDB_MIGRATION_KEY \<noteq> Some (ascii ''2'')"
  then have f: "initializeIndexedDBStorage env s =
           \<lparr>localStorage = (\<lambda>k. if k \<in> set heavyKeys then None
                                else if k = IDB_MIGRATION_KEY then Some (ascii ''2'')
                                else localStorage s k),
            idb = (\<lambda>k. if k = IDB_MIGRATION_KEY then Some (string_value env (ascii ''2''))
                       else if k \<in> set IDB_SYNC_KEYS
                       then (case localStorage s k of
                               None \<Rightarrow> idb s k
                             | Some v \<Rightarrow> Some (stored_value env v))
                       else idb s k)\<rparr>"
    by (simp add: initialize_fresh)
  show "\<forall>k. localStorage (initializeIndexedDBStorage env s) k =
              (if k \<in> set heavyKeys then None
               else if k = IDB_MIGRATION_KEY then Some (ascii ''2'')
               else localStorage s k)"
    unfolding f by simp
  show "\<forall>k. idb (initializeIndexedDBStorage env s) k =
              (if k = IDB_MIGRATION_KEY then Some (string_value env (ascii ''2''))
               else if k \<in> set IDB_SYNC_KEYS
               then (case localStorage s k of
                       None \<Rightarrow> idb s k
                     | Some v \<Rightarrow> Some (stored_value env v))
               else idb s k)"
    unfolding f by simp
next
  from initialize_cases [of env s]
  show "initializeIndexedDBStorage env (initializeIndexedDBStorage env s) =
     initializeIndexedDBStorage env s"
  proof
    assume "initializeIndexedDBStorage env s = s"
    then show ?thesis by simp
  next
    assume "localStorage (initializeIndexedDBStorage env s) IDB_MIGRATION_KEY = Some (ascii ''2'')"
    then show ?thesis by (rule initialize_done)
  qed
qed

theorem initializeIndexedDBStorage_once_witness:
  "localStorage (initializeIndexedDBStorage sample_browser sample_storage)
     (ascii ''local-tasks-data'') = None \<and>
   localStorage (initializeIndexedDBStorage sample_browser sample_storage)
     (ascii ''local-tasks-theme'') = Some (ascii ''light'') \<and>
   localStorage (initializeIndexedDBStorage sample_browser sample_storage)
     IDB_MIGRATION_KEY = Some (ascii ''2'') \<and>
   idb (initializeIndexedDBStorage sample_browser sample_storage)
     (ascii ''local-tasks-data'') = Some (Parsed (ascii ''[1]'')) \<and>
   idb (initializeIndexedDBStorage sample_browser sample_storage)
     (ascii ''local-tasks-theme'') = Some (Str (ascii ''light'')) \<and>
   idb (initializeIndexedDBStorage sample_browser sample_storage)
     IDB_MIGRATION_KEY = Some (Str (ascii ''2'')) \<and>
   initializeIndexedDBStorage sample_browser
     (initializeIndexedDBStorage sample_browser sample_storage) =
   initializeIndexedDBStorage sample_browser sample_storage"
proof -
  let ?s1 = "initializeIndexedDBStorage sample_browser sample_storage"
  note T = initializeIndexedDBStorage_once [of sample_storage sample_browser]
  have h: "has_window sample_browser \<and> idb_available sample_browser \<and>
           localStorage sample_storage IDB_MIGRATION_KEY \<noteq> Some (ascii ''2'')"
    by (simp add: sample_browser_def sample_storage_def IDB_MIGRATION_KEY_def ascii_def)
  from T h have
    ls: "\<And>k. localStorage ?s1 k =
              (if k \<in> set heavyKeys then None
               else if k = IDB_MIGRATION_KEY then Some (ascii ''2'')
               else localStorage sample_storage k)" and
    db: "\<And>k. idb ?s1 k =
              (if k = IDB_MIGRATION_KEY then Some (string_value sample_browser (ascii ''2''))
               else if k \<in> set IDB_SYNC_KEYS
               then (case localStorage sample_storage k of
                       None \<Rightarrow> idb sample_storage k
                     | Some v \<Rightarrow> Some (stored_value sample_browser v))
               else idb sample_storage k)" and
    again: "initializeIndexedDBStorage sample_browser ?s1 = ?s1"
    by blast+
  have 1: "localStorage ?s1 (ascii ''local-tasks-data'') = None"
    unfolding ls by (simp add: heavyKeys_def)
  have 2: "localStorage ?s1 (ascii ''local-tasks-theme'') = Some (ascii ''light'')"
    unfolding ls by (simp add: heavyKeys_def IDB_MIGRATION_KEY_def sample_storage_def ascii_def)
  have 3: "localStorage ?s1 IDB_MIGRATION_KEY = Some (ascii ''2'')"
    unfolding ls by (simp add: migration_key_not_heavy)
  have 4: "idb ?s1 (ascii ''local-tasks-data'') = Some (Parsed (ascii ''[1]''))"
    unfolding db
    by (simp add: IDB_SYNC_KEYS_def IDB_MIGRATION_KEY_def sample_storage_def sample_browser_def
        stored_value_def ascii_def)
  have 5: "idb ?s1 (ascii ''local-tasks-theme'') = Some (Str (ascii ''light''))"
    unfolding db
    by (simp add: IDB_SYNC_KEYS_def IDB_MIGRATION_KEY_def sample_storage_def sample_browser_def
        stored_value_def ascii_def)
  have 6: "idb ?s1 IDB_MIGRATION_KEY = Some (Str (ascii ''2''))"
    unfolding db by (simp add: sample_browser_def)
  from 1 2 3 4 5 6 again show ?thesis by simp
qed

section \<open>Facts about the storage wrappers\<close>

lemma findIndex_None: "findIndex p xs = None \<longleftrightarrow> (\<forall>x\<in>set xs. \<not> p x)"
  by (induction xs) (auto split: option.splits)

lemma findIndex_Some:
  "findIndex p xs = Some i \<Longrightarrow> i < length xs \<and> p (xs ! i) \<and> (\<forall>j<i. \<not> p (xs ! j))"
proof (induction xs arbitrary: i)
  case Nil
  then show ?case by simp
next
  case (Cons x xs)
  show ?case
  proof (cases "p x")
    case True
    with Cons.prems show ?thesis by simp
  next
    case False
    with Cons.prems obtain k where k: "findIndex p xs = Some k" and i: "i = Suc k"
      by (auto split: option.splits)
    from Cons.IH [OF k] False i show ?thesis
      by (auto simp: nth_Cons split: nat.splits)
  qed
qed

lemma getAppData_present:
  assumes "idb s STORAGE_KEY = Some data"
  shows "getAppData env s =
           (if \<not> has_window env then Inr \<lparr>categories = [], tasks = []\<rparr>
            else if idb_available env then Inr data else Inl DOMException, s)"
  using assms by (simp add: getAppData_def idbGet_def)

lemma getAppData_absent:
  assumes "idb s STORAGE_KEY = None" and "has_window env" and "idb_available env"
  shows "getAppData env s = (Inr (defaultData env), s\<lparr>idb := (idb s)(STORAGE_KEY \<mapsto> defaultData env)\<rparr>)"
  using assms by (simp add: getAppData_def idbGet_def saveAppData_def idbSet_def)

lemma splice1_distinct:
  assumes "distinct (map f xs)" and "i < length xs"
  shows "splice1 i xs = filter (\<lambda>x. f x \<noteq> f (xs ! i)) xs"
  using assms
proof (induction xs arbitrary: i)
  case Nil
  then show ?case by simp
next
  case (Cons x xs)
  show ?case
  proof (cases i)
    case 0
    from Cons.prems have "\<forall>y\<in>set xs. f y \<noteq> f x" by (auto simp: image_iff)
    then have "filter (\<lambda>y. f y \<noteq> f x) xs = xs" by (simp add: filter_id_conv)
    with 0 show ?thesis by (simp add: splice1_def)
  next
    case (Suc k)
    with Cons.prems have k: "k < length xs" and d: "distinct (map f xs)" by simp_all
    from Cons.prems k have "f x \<noteq> f (xs ! k)" by (auto simp: image_iff)
    with Cons.IH [OF d k] Suc show ?thesis by (simp add: splice1_def)
  qed
qed

lemma findIndex_first:
  assumes "\<exists>x\<in>set xs. p x"
  shows "\<exists>i. findIndex p xs = Some i \<and> i < length xs \<and> p (xs ! i) \<and> (\<forall>j<i. \<not> p (xs ! j))"
proof (cases "findIndex p xs")
  case None
  with assms show ?thesis by (simp add: findIndex_None)
next
  case (Some i)
  with findIndex_Some [OF Some] show ?thesis by simp
qed

section \<open>A missing id changes nothing\<close>

text \<open>
  Claim C7, as amended. For every store that already holds the app data, and every id
  that matches no task of it: \<^verbatim>\<open>updateTask\<close> and \<^verbatim>\<open>toggleTaskComplete\<close> return
  null and \<^verbatim>\<open>deleteTask\<close> returns false; for every id that matches no category,
  \<^verbatim>\<open>updateCategory\<close> returns null; in each case nothing is written and the store is
  unchanged. (Where IndexedDB does not work the promise rejects instead, and the store
  is unchanged as well.)
\<close>

theorem crud_missing_id:
  assumes "idb s STORAGE_KEY = Some data"
  shows "((\<forall>t\<in>set (tasks data). task_id t \<noteq> ident) \<longrightarrow>
            updateTask env ident updates s = (missing env None, s) \<and>
            toggleTaskComplete env ident s = (missing env None, s) \<and>
            deleteTask env ident s = (missing env False, s)) \<and>
         ((\<forall>c\<in>set (categories data). category_id c \<noteq> ident) \<longrightarrow>
            updateCategory env ident updates' s = (missing env None, s))"
proof (intro conjI impI)
  note g = getAppData_present [OF assms, of env]
  assume n: "\<forall>t\<in>set (tasks data). task_id t \<noteq> ident"
  then have f: "findIndex (\<lambda>t. task_id t = ident) (tasks data) = None"
    by (simp add: findIndex_None)
  show "updateTask env ident updates s = (missing env None, s)"
    by (simp add: updateTask_def g f missing_def)
  show "toggleTaskComplete env ident s = (missing env None, s)"
    by (simp add: toggleTaskComplete_def g f missing_def)
  show "deleteTask env ident s = (missing env False, s)"
    by (simp add: deleteTask_def g f missing_def)
next
  note g = getAppData_present [OF assms, of env]
  assume n: "\<forall>c\<in>set (categories data). category_id c \<noteq> ident"
  then have f: "findIndex (\<lambda>c. category_id c = ident) (categories data) = None"
    by (simp add: findIndex_None)
  show "updateCategory env ident updates' s = (missing env None, s)"
    by (simp add: updateCategory_def g f missing_def)
qed

theorem crud_missing_id_witness:
  "updateTask sample_app_env (ascii ''t9'') (\<lambda>t. t\<lparr>title := ascii ''new''\<rparr>) sample_app_storage =
     (Inr None, sample_app_storage) \<and>
   toggleTaskComplete sample_app_env (ascii ''t9'') sample_app_storage =
     (Inr None, sample_app_storage) \<and>
   deleteTask sample_app_env (ascii ''t9'') sample_app_storage = (Inr False, sample_app_storage) \<and>
   updateCategory sample_app_env (ascii ''c9'') (\<lambda>c. c\<lparr>color := ascii ''red''\<rparr>)
     sample_app_storage = (Inr None, sample_app_storage)"
proof -
  have p: "idb sample_app_storage STORAGE_KEY = Some sample_data"
    by (simp add: sample_app_storage_def)
  have t: "\<forall>t\<in>set (tasks sample_data). task_id t \<noteq> ascii ''t9''"
    by (simp add: sample_data_def sample_task_def ascii_def)
  have c: "\<forall>c\<in>set (categories sample_data). category_id c \<noteq> ascii ''c9''"
    by (simp add: sample_data_def sample_category_def ascii_def)
  have m: "missing sample_app_env r = Inr r" for r :: 'r
    by (simp add: missing_def sample_app_env_def)
  from crud_missing_id [OF p, of "ascii ''t9''" sample_app_env
      "\<lambda>t. t\<lparr>title := ascii ''new''\<rparr>"] t
  have 1: "updateTask sample_app_env (ascii ''t9'') (\<lambda>t. t\<lparr>title := ascii ''new''\<rparr>)
      sample_app_storage = (Inr None, sample_app_storage)"
    and 2: "toggleTaskComplete sample_app_env (ascii ''t9'') sample_app_storage =
      (Inr None, sample_app_storage)"
    and 3: "deleteTask sample_app_env (ascii ''t9'') sample_app_storage =
      (Inr False, sample_app_storage)"
    by (simp_all add: m)
  from crud_missing_id [OF p, of "ascii ''c9''" sample_app_env _
      "\<lambda>c. c\<lparr>color := ascii ''red''\<rparr>"] c
  have 4: "updateCategory sample_app_env (ascii ''c9'') (\<lambda>c. c\<lparr>color := ascii ''red''\<rparr>)
     sample_app_storage = (Inr None, sample_app_storage)"
    by (simp add: m)
  from 1 2 3 4 show ?thesis by simp
qed

text \<open>
  The claim does not hold for every store: when no app data is stored yet,
  \<^verbatim>\<open>getAppData\<close> first saves the default data (one category, no task). So on an
  empty store each of the four wrappers, called with an id that matches nothing,
  returns null or false and leaves a store that holds the default data.
\<close>

theorem crud_missing_id_counterexample:
  "tasks (defaultData sample_app_env) = [] \<and>
   updateTask sample_app_env (ascii ''t9'') (\<lambda>t. t) empty_storage =
     (Inr None, empty_storage\<lparr>idb := [STORAGE_KEY \<mapsto> defaultData sample_app_env]\<rparr>) \<and>
   toggleTaskComplete sample_app_env (ascii ''t9'') empty_storage =
     (Inr None, empty_storage\<lparr>idb := [STORAGE_KEY \<mapsto> defaultData sample_app_env]\<rparr>) \<and>
   deleteTask sample_app_env (ascii ''t9'') empty_storage =
     (Inr False, empty_storage\<lparr>idb := [STORAGE_KEY \<mapsto> defaultData sample_app_env]\<rparr>) \<and>
   updateCategory sample_app_env (ascii ''c9'') (\<lambda>c. c) empty_storage =
     (Inr None, empty_storage\<lparr>idb := [STORAGE_KEY \<mapsto> defaultData sample_app_env]\<rparr>) \<and>
   empty_storage\<lparr>idb := [STORAGE_KEY \<mapsto> defaultData sample_app_env]\<rparr> \<noteq> empty_storage"
proof -
  have a: "idb empty_storage STORAGE_KEY = None" "has_window sample_app_env"
    "idb_available sample_app_env"
    by (simp_all add: empty_storage_def sample_app_env_def)
  have g: "getAppData sample_app_env empty_storage =
      (Inr (defaultData sample_app_env),
       empty_storage\<lparr>idb := [STORAGE_KEY \<mapsto> defaultData sample_app_env]\<rparr>)"
    using getAppData_absent [OF a] by (simp add: empty_storage_def)
  have d: "tasks (defaultData sample_app_env) = []"
    "categories (defaultData sample_app_env) =
       [\<lparr>category_id = ascii ''1700000000000-abc'', category_name = default_category_name,
          color = ascii ''#3b82f6'', category_order = 0,
          category_createdAt = ascii ''2030-01-01T00:00:00.000Z''\<rparr>]"
    by (simp_all add: defaultData_def sample_app_env_def)
  have ne: "empty_storage\<lparr>idb := [STORAGE_KEY \<mapsto> defaultData sample_app_env]\<rparr> \<noteq> empty_storage"
  proof
    assume "empty_storage\<lparr>idb := [STORAGE_KEY \<mapsto> defaultData sample_app_env]\<rparr> = empty_storage"
    then have "idb (empty_storage\<lparr>idb := [STORAGE_KEY \<mapsto> defaultData sample_app_env]\<rparr>) STORAGE_KEY =
      idb empty_storage STORAGE_KEY" by simp
    then show False by (simp add: empty_storage_def)
  qed
  show ?thesis
    using ne by (simp add: updateTask_def toggleTaskComplete_def deleteTask_def updateCategory_def
        g d ascii_def)
qed

section \<open>Deleting a category deletes its tasks\<close>

text \<open>
  Claim C10, as amended. For every store that already holds the app data, in a browser
  whose IndexedDB works: for every id of an existing category, \<^verbatim>\<open>deleteCategory\<close>
  removes that category (the first one with this id; the only one when ids are
  distinct) and every task whose \<^verbatim>\<open>categoryId\<close> equals the id, leaves all other
  categories and tasks as they are, saves the result and returns true. For an id of
  no category it returns false and the store is unchanged.
\<close>

theorem deleteCategory_cascade:
  assumes "idb s STORAGE_KEY = Some data"
  shows "(has_window env \<and> idb_available env \<and>
            (\<exists>c\<in>set (categories data). category_id c = ident) \<longrightarrow>
            (\<exists>i<length (categories data).
               category_id (categories data ! i) = ident \<and>
               (\<forall>j<i. category_id (categories data ! j) \<noteq> ident) \<and>
               deleteCategory env ident s =
                 (Inr True,
                  s\<lparr>idb := (idb s)(STORAGE_KEY \<mapsto>
                     data\<lparr>tasks := filter (\<lambda>t. categoryId t \<noteq> ident) (tasks data),
                          categories := take i (categories data) @
                                        drop (Suc i) (categories data)\<rparr>)\<rparr>) \<and>
               (distinct (map category_id (categories data)) \<longrightarrow>
                  take i (categories data) @ drop (Suc i) (categories data) =
                  filter (\<lambda>c. category_id c \<noteq> ident) (categories data)))) \<and>
         ((\<forall>c\<in>set (categories data). category_id c \<noteq> ident) \<longrightarrow>
            deleteCategory env ident s = (missing env False, s))"
proof (intro conjI impI)
  note g = getAppData_present [OF assms, of env]
  assume a: "has_window env \<and> idb_available env \<and>
            (\<exists>c\<in>set (categories data). category_id c = ident)"
  then have w: "has_window env" "idb_available env" by simp_all
  from a findIndex_first [of "categories data" "\<lambda>c. category_id c = ident"]
  obtain i where f: "findIndex (\<lambda>c. category_id c = ident) (categories data) = Some i"
    and i: "i < length (categories data)" and ci: "category_id (categories data ! i) = ident"
    and first: "\<forall>j<i. category_id (categories data ! j) \<noteq> ident" by blast
  have d: "deleteCategory env ident s =
                 (Inr True,
                  s\<lparr>idb := (idb s)(STORAGE_KEY \<mapsto>
                     data\<lparr>tasks := filter (\<lambda>t. categoryId t \<noteq> ident) (tasks data),
                          categories := take i (categories data) @
                                        drop (Suc i) (categories data)\<rparr>)\<rparr>)"
    using w by (simp add: deleteCategory_def g f save_and_return_def saveAppData_def idbSet_def
        splice1_def Let_def)
  have s: "take i (categories data) @ drop (Suc i) (categories data) =
                  filter (\<lambda>c. category_id c \<noteq> ident) (categories data)"
    if "distinct (map category_id (categories data))"
    using splice1_distinct [OF that i] ci by (simp add: splice1_def)
  from i ci first d s
  show "\<exists>i<length (categories data).
               category_id (categories data ! i) = ident \<and>
               (\<forall>j<i. category_id (categories data ! j) \<noteq> ident) \<and>
               deleteCategory env ident s =
                 (Inr True,
                  s\<lparr>idb := (idb s)(STORAGE_KEY \<mapsto>
                     data\<lparr>tasks := filter (\<lambda>t. categoryId t \<noteq> ident) (tasks data),
                          categories := take i (categories data) @
                                        drop (Suc i) (categories data)\<rparr>)\<rparr>) \<and>
               (distinct (map category_id (categories data)) \<longrightarrow>
                  take i (categories data) @ drop (Suc i) (categories data) =
                  filter (\<lambda>c. category_id c \<noteq> ident) (categories data))"
    by blast
next
  note g = getAppData_present [OF assms, of env]
  assume "\<forall>c\<in>set (categories data). category_id c \<noteq> ident"
  then have f: "findIndex (\<lambda>c. category_id c = ident) (categories data) = None"
    by (simp add: findIndex_None)
  show "deleteCategory env ident s = (missing env False, s)"
    by (simp add: deleteCategory_def g f missing_def)
qed

theorem deleteCategory_cascade_witness:
  "deleteCategory sample_app_env (ascii ''c1'') sample_app_storage =
     (Inr True,
      \<lparr>localStorage = Map.empty,
       idb = [STORAGE_KEY \<mapsto>
                \<lparr>categories = [sample_category (ascii ''c2'')],
                 tasks = [sample_task (ascii ''t2'') (ascii ''c2'')]\<rparr>]\<rparr>) \<and>
   deleteCategory sample_app_env (ascii ''c9'') sample_app_storage =
     (Inr False, sample_app_storage)"
proof -
  have p: "idb sample_app_storage STORAGE_KEY = Some sample_data"
    by (simp add: sample_app_storage_def)
  have e: "has_window sample_app_env \<and> idb_available sample_app_env \<and>
            (\<exists>c\<in>set (categories sample_data). category_id c = ascii ''c1'')"
    by (simp add: sample_app_env_def sample_data_def sample_category_def)
  have n: "\<forall>c\<in>set (categories sample_data). category_id c \<noteq> ascii ''c9''"
    by (simp add: sample_data_def sample_category_def ascii_def)
  have m: "missing sample_app_env False = Inr False"
    by (simp add: missing_def sample_app_env_def)
  from deleteCategory_cascade [OF p, of sample_app_env "ascii ''c9''"] n m
  have 2: "deleteCategory sample_app_env (ascii ''c9'') sample_app_storage =
     (Inr False, sample_app_storage)" by simp
  from deleteCategory_cascade [OF p, of sample_app_env "ascii ''c1''"] e
  obtain i where i: "i < length (categories sample_data)"
    and ci: "category_id (categories sample_data ! i) = ascii ''c1''"
    and d: "deleteCategory sample_app_env (ascii ''c1'') sample_app_storage =
                 (Inr True,
                  sample_app_storage\<lparr>idb := (idb sample_app_storage)(STORAGE_KEY \<mapsto>
                     sample_data\<lparr>tasks := filter (\<lambda>t. categoryId t \<noteq> ascii ''c1'')
                                    (tasks sample_data),
                          categories := take i (categories sample_data) @
                                        drop (Suc i) (categories sample_data)\<rparr>)\<rparr>)"
    by blast
  from i have "i = 0 \<or> i = 1" by (auto simp: sample_data_def)
  with ci have i0: "i = 0" by (auto simp: sample_data_def sample_category_def ascii_def)
  have 1: "deleteCategory sample_app_env (ascii ''c1'') sample_app_storage =
     (Inr True,
      \<lparr>localStorage = Map.empty,
       idb = [STORAGE_KEY \<mapsto>
                \<lparr>categories = [sample_category (ascii ''c2'')],
                 tasks = [sample_task (ascii ''t2'') (ascii ''c2'')]\<rparr>]\<rparr>)"
    unfolding d i0
    by (simp add: sample_app_storage_def sample_data_def sample_task_def ascii_def)
  from 1 2 show ?thesis ..
qed

text \<open>
  As for the other wrappers, the second half fails on a store without app data: with
  an id that matches nothing, \<^verbatim>\<open>deleteCategory\<close> returns false, yet
  \<^verbatim>\<open>getAppData\<close> has saved the default data.
\<close>

theorem deleteCategory_cascade_counterexample:
  "idb empty_storage STORAGE_KEY = None \<and>
   map category_id (categories (defaultData sample_app_env)) = [ascii ''1700000000000-abc''] \<and>
   deleteCategory sample_app_env (ascii ''c9'') empty_storage =
     (Inr False, empty_storage\<lparr>idb := [STORAGE_KEY \<mapsto> defaultData sample_app_env]\<rparr>) \<and>
   empty_storage\<lparr>idb := [STORAGE_KEY \<mapsto> defaultData sample_app_env]\<rparr> \<noteq> empty_storage"
proof -
  have a: "idb empty_storage STORAGE_KEY = None" "has_window sample_app_env"
    "idb_available sample_app_env"
    by (simp_all add: empty_storage_def sample_app_env_def)
  have g: "getAppData sample_app_env empty_storage =
      (Inr (defaultData sample_app_env),
       empty_storage\<lparr>idb := [STORAGE_KEY \<mapsto> defaultData sample_app_env]\<rparr>)"
    using getAppData_absent [OF a] by (simp add: empty_storage_def)
  have d: "categories (defaultData sample_app_env) =
       [\<lparr>category_id = ascii ''1700000000000-abc'', category_name = default_category_name,
          color = ascii ''#3b82f6'', category_order = 0,
          category_createdAt = ascii ''2030-01-01T00:00:00.000Z''\<rparr>]"
    by (simp add: defaultData_def sample_app_env_def)
  have ne: "empty_storage\<lparr>idb := [STORAGE_KEY \<mapsto> defaultData sample_app_env]\<rparr> \<noteq> empty_storage"
  proof
    assume "empty_storage\<lparr>idb := [STORAGE_KEY \<mapsto> defaultData sample_app_env]\<rparr> = empty_storage"
    then have "idb (empty_storage\<lparr>idb := [STORAGE_KEY \<mapsto> defaultData sample_app_env]\<rparr>) STORAGE_KEY =
      idb empty_storage STORAGE_KEY" by simp
    then show False by (simp add: empty_storage_def)
  qed
  show ?thesis
    using ne a(1) by (simp add: deleteCategory_def g d ascii_def)
qed

section \<open>Facts about the dialog\<close>

lemma dialog_run_snoc:
  "dialog_run a (evs @ [ev]) = dialog_step a (dialog_run a evs) ev"
  by (simp add: dialog_run_def)

lemma dialog_run_values:
  "dialog_run a evs ident = Some v \<Longrightarrow>
     \<exists>t\<in>set a. trip_id (trip t) = ident \<and> (\<exists>c\<in>set (candidates t). member_knoxId c = v)"
proof (induction evs arbitrary: ident v rule: rev_induct)
  case Nil
  then show ?case by (simp add: dialog_run_def)
next
  case (snoc ev evs)
  show ?case
  proof (cases ev)
    case Opened
    with snoc.prems show ?thesis by (simp add: dialog_run_snoc dialog_step_def)
  next
    case (Candidate_click i j)
    show ?thesis
    proof (cases "i < length a \<and> j < length (candidates (a ! i))")
      case False
      with snoc.prems Candidate_click have "dialog_run a evs ident = Some v"
        by (auto simp: dialog_run_snoc dialog_step_def at_index_def split: if_splits)
      then show ?thesis by (rule snoc.IH)
    next
      case True
      let ?t = "a ! i"
      let ?c = "candidates ?t ! j"
      from True have st: "dialog_run a (evs @ [ev]) =
          handleSelect (trip_id (trip ?t)) (member_knoxId ?c) (dialog_run a evs)"
        by (simp add: dialog_run_snoc dialog_step_def at_index_def Candidate_click)
      show ?thesis
      proof (cases "ident = trip_id (trip ?t)")
        case False
        with snoc.prems st have "dialog_run a evs ident = Some v"
          by (simp add: handleSelect_def)
        then show ?thesis by (rule snoc.IH)
      next
        case eq: True
        with snoc.prems st have "member_knoxId ?c = v" by (simp add: handleSelect_def)
        moreover from True have "?t \<in> set a" "?c \<in> set (candidates ?t)" by simp_all
        ultimately show ?thesis using eq by blast
      qed
    qed
  qed
qed

lemma get_property_own:
  "key \<notin> set Object_prototype_names \<Longrightarrow>
     get_property res key \<noteq> JS_undefined \<longleftrightarrow> (\<exists>k. res key = Some (Some k))"
  by (auto simp: get_property_def split: option.splits)

text \<open>
  The ids that the parser gives out are UUIDs, strings of 36 characters; none of them
  is the name of a property of \<^verbatim>\<open>Object.prototype\<close>.
\<close>

lemma uuid_not_inherited: "length ident = 36 \<Longrightarrow> ident \<notin> set Object_prototype_names"
  by (auto simp: Object_prototype_names_def ascii_def)

section \<open>Confirmation waits for every choice\<close>

text \<open>
  Claim C6, as amended. In the resolver dialog, for every list of ambiguous trips none
  of whose ids is the name of a property of \<^verbatim>\<open>Object.prototype\<close> (the UUIDs the parser
  gives out are not), and for every state of the resolutions object: the confirm button
  is enabled (a click on it calls \<^verbatim>\<open>onResolve\<close>) if and only if the object holds,
  under the id of every ambiguous trip, a Knox id of its own, and the click passes
  exactly that object to \<^verbatim>\<open>onResolve\<close>. In every state the dialog can reach (by
  openings and clicks on listed candidates) a value held under an id is the Knox id of
  a candidate listed for a trip with that id.
\<close>

theorem confirm_gated:
  assumes "\<forall>t\<in>set ambiguous. trip_id (trip t) \<notin> set Object_prototype_names"
  shows "(confirm_click ambiguous res \<noteq> None \<longleftrightarrow>
            (\<forall>t\<in>set ambiguous. \<exists>k. res (trip_id (trip t)) = Some (Some k))) \<and>
         (isAllResolved ambiguous res \<longleftrightarrow>
            (\<forall>t\<in>set ambiguous. \<exists>k. res (trip_id (trip t)) = Some (Some k))) \<and>
         (\<forall>arg. confirm_click ambiguous res = Some arg \<longrightarrow> arg = res) \<and>
         (res = dialog_run ambiguous evs \<longrightarrow>
            (\<forall>ident v. res ident = Some v \<longrightarrow>
               (\<exists>t\<in>set ambiguous. trip_id (trip t) = ident \<and>
                  (\<exists>c\<in>set (candidates t). member_knoxId c = v))))"
proof -
  have r: "isAllResolved ambiguous res \<longleftrightarrow>
      (\<forall>t\<in>set ambiguous. \<exists>k. res (trip_id (trip t)) = Some (Some k))"
    using assms by (simp add: isAllResolved_def list_all_iff get_property_own)
  have c: "confirm_click ambiguous res \<noteq> None \<longleftrightarrow> isAllResolved ambiguous res"
    by (simp add: confirm_click_def)
  have p: "\<forall>arg. confirm_click ambiguous res = Some arg \<longrightarrow> arg = res"
    by (auto simp: confirm_click_def handleConfirm_def split: if_splits)
  have v: "res = dialog_run ambiguous evs \<longrightarrow>
      (\<forall>ident v. res ident = Some v \<longrightarrow>
         (\<exists>t\<in>set ambiguous. trip_id (trip t) = ident \<and>
            (\<exists>c\<in>set (candidates t). member_knoxId c = v)))"
    using dialog_run_values by blast
  from r c p v show ?thesis by blast
qed

theorem confirm_gated_witness:
  "confirm_click sample_ambiguous (dialog_run sample_ambiguous [Opened]) = None \<and>
   confirm_click sample_ambiguous
     (dialog_run sample_ambiguous [Opened, Candidate_click 0 0, Candidate_click 0 1]) =
     Some [ascii ''u0'' \<mapsto> Some (ascii ''l2'')]"
proof -
  let ?r0 = "dialog_run sample_ambiguous [Opened]"
  let ?r1 = "dialog_run sample_ambiguous [Opened, Candidate_click 0 0, Candidate_click 0 1]"
  have h: "\<forall>t\<in>set sample_ambiguous. trip_id (trip t) \<notin> set Object_prototype_names"
    by (simp add: sample_ambiguous_def Object_prototype_names_def ascii_def)
  have v0: "?r0 = Map.empty"
    by (simp add: dialog_run_def dialog_step_def)
  have v1: "?r1 = [ascii ''u0'' \<mapsto> Some (ascii ''l2'')]"
    by (simp add: dialog_run_def dialog_step_def sample_ambiguous_def at_index_def
        handleSelect_def)
  have n: "\<not> (\<forall>t\<in>set sample_ambiguous. \<exists>k. ?r0 (trip_id (trip t)) = Some (Some k))"
    unfolding v0 by (simp add: sample_ambiguous_def)
  have a: "\<forall>t\<in>set sample_ambiguous. \<exists>k. ?r1 (trip_id (trip t)) = Some (Some k)"
    unfolding v1 by (simp add: sample_ambiguous_def)
  note T0 = confirm_gated [OF h, of ?r0 "[Opened]"]
  note T1 = confirm_gated
    [OF h, of ?r1 "[Opened, Candidate_click 0 0, Candidate_click 0 1]"]
  from T0 n have 1: "confirm_click sample_ambiguous ?r0 = None" by blast
  from T1 a have "confirm_click sample_ambiguous ?r1 \<noteq> None" by blast
  then obtain arg where c: "confirm_click sample_ambiguous ?r1 = Some arg" by blast
  with T1 have "arg = ?r1" by blast
  with c v1 have 2: "confirm_click sample_ambiguous ?r1 =
      Some [ascii ''u0'' \<mapsto> Some (ascii ''l2'')]"
    by simp
  from 1 2 show ?thesis ..
qed

text \<open>
  Without the condition on the ids the claim fails. For a trip whose id is the word
  \<^verbatim>\<open>constructor\<close> the read \<^verbatim>\<open>resolutions[trip.id]\<close> finds the property that every
  object inherits: right after the dialog was opened, with nothing chosen and no own
  property in the object, the confirm button is enabled and a click passes the empty
  object to \<^verbatim>\<open>onResolve\<close>.
\<close>

theorem confirm_gated_counterexample:
  "dialog_run constructor_ambiguous [Opened] = Map.empty \<and>
   isAllResolved constructor_ambiguous (dialog_run constructor_ambiguous [Opened]) \<and>
   confirm_click constructor_ambiguous (dialog_run constructor_ambiguous [Opened]) =
     Some Map.empty"
  by (simp add: dialog_run_def dialog_step_def confirm_click_def handleConfirm_def
      isAllResolved_def get_property_def constructor_ambiguous_def Object_prototype_names_def)

end
